theory Spec2Isabelle
  imports Main
begin

section \<open>Python values, exceptions and outcomes\<close>

text \<open>
  The crawler is asynchronous Python. Every call that can raise is modelled with an
  explicit outcome: \<open>Returns v\<close> for a normal return, \<open>Raises e\<close> for an exception
  that leaves the call. The exceptions of the standard library that the modelled code
  paths can produce have their own constructors; any exception of an external
  collaborator (Playwright, the HrFlow SDK, the parsing and navigation modules) is
  \<open>External\<close> with its name.
\<close>

datatype exn = CancelledError | ValueError | AttributeError | External string

datatype 'a outcome = Returns 'a | Raises exn




section \<open>Job records\<close>

text \<open>
  Modelled from the spec: the class \<open>RawJob\<close> of \<open>src.data_models\<close> is not among the
  sources. The record keeps the reference (\<open>in_platform_id\<close>), the summary fields as one
  opaque value, and the detail fields, absent until enrichment. \<open>update_data\<close> adds
  the detail fields and leaves the reference and the summary alone.
\<close>

record RawJob =
  in_platform_id :: string
  summary :: string
  job_details :: "string option"
  job_metadata :: "string option"

definition update_data :: "RawJob \<Rightarrow> string \<Rightarrow> string \<Rightarrow> RawJob" where
  "update_data job details metadata =
     job\<lparr>job_details := Some details, job_metadata := Some metadata\<rparr>"

section \<open>asyncio.Queue\<close>

text \<open>
  The queue of the standard library, as \<open>asyncio/queues.py\<close> defines it: the bound,
  the buffered items (oldest first) and the counter of items put and not yet
  acknowledged by \<open>task_done\<close>.
\<close>

record Queue =
  maxsize :: int
  items :: "RawJob list"
  unfinished_tasks :: nat

definition Queue_init :: "int \<Rightarrow> Queue" where
  "Queue_init m = \<lparr>maxsize = m, items = [], unfinished_tasks = 0\<rparr>"

definition qsize :: "Queue \<Rightarrow> nat" where
  "qsize q = length (items q)"

definition empty_q :: "Queue \<Rightarrow> bool" where
  "empty_q q = (items q = [])"

definition full :: "Queue \<Rightarrow> bool" where
  "full q = (if maxsize q \<le> 0 then False else int (qsize q) \<ge> maxsize q)"

text \<open>\<open>put_nowait\<close> once the queue is known not to be full.\<close>

definition put_nowait :: "RawJob \<Rightarrow> Queue \<Rightarrow> Queue" where
  "put_nowait job q =
     q\<lparr>items := items q @ [job], unfinished_tasks := unfinished_tasks q + 1\<rparr>"

text \<open>
  \<open>await put(item)\<close> loops while the queue is full, suspended on a putter future;
  \<open>None\<close> is that suspension, \<open>Some q'\<close> the queue after an immediate insert.
\<close>

definition put :: "RawJob \<Rightarrow> Queue \<Rightarrow> Queue option" where
  "put job q = (if full q then None else Some (put_nowait job q))"

definition get_nowait :: "Queue \<Rightarrow> (RawJob \<times> Queue) option" where
  "get_nowait q =
     (case items q of [] \<Rightarrow> None | job # rest \<Rightarrow> Some (job, q\<lparr>items := rest\<rparr>))"

definition task_done :: "Queue \<Rightarrow> Queue outcome" where
  "task_done q =
     (if unfinished_tasks q \<le> 0 then Raises ValueError
      else Returns (q\<lparr>unfinished_tasks := unfinished_tasks q - 1\<rparr>))"

section \<open>ScrapingWorker\<close>

text \<open>
  \<open>random.randint(a, b)\<close> is \<open>a + _randbelow(b - a + 1)\<close>. The generator is the
  hidden state of the module \<open>random\<close>; its next output is the parameter \<open>r\<close>,
  reduced to the width of the interval.
\<close>

definition randint :: "int \<Rightarrow> int \<Rightarrow> nat \<Rightarrow> int" where
  "randint a b r = a + int r mod (b - a + 1)"

text \<open>
  What the environment answers during one construction of a worker: the output of the
  random generator and the outcomes of the three awaited browser calls.
\<close>

record worker_io =
  rand :: nat
  new_context :: "unit outcome"
  new_page :: "unit outcome"
  stealth :: "unit outcome"

text \<open>
  Handles of the external resources: the Playwright engine, the browser (with its
  headless flag) and the HrFlow client. A worker object: \<open>browser_of\<close> is the
  field \<open>browser\<close> (the shared browser), \<open>wid\<close> the field
  \<open>id\<close>, \<open>context_closed\<close> the state of the browsing context the worker opened.
\<close>

datatype handle = PlaywrightEngine | ChromiumBrowser bool | HrflowClient

record ScrapingWorker =
  proxy :: "string option"
  browser_of :: handle
  purpose :: string
  wid :: int
  context_closed :: bool

definition ScrapingWorker_init ::
  "handle option \<Rightarrow> string option \<Rightarrow> string \<Rightarrow> worker_io \<Rightarrow> ScrapingWorker outcome" where
  "ScrapingWorker_init browser proxy_info purp io =
     (case browser of
        None \<Rightarrow> Raises AttributeError
      | Some b \<Rightarrow>
          (case new_context io of
             Raises e \<Rightarrow> Raises e
           | Returns _ \<Rightarrow>
               (case new_page io of
                  Raises e \<Rightarrow> Raises e
                | Returns _ \<Rightarrow>
                    (case stealth io of
                       Raises e \<Rightarrow> Raises e
                     | Returns _ \<Rightarrow>
                         Returns \<lparr>proxy = proxy_info, browser_of = b, purpose = purp,
                                  wid = randint 20 9999 (rand io),
                                  context_closed = False\<rparr>))))"

text \<open>\<open>stop()\<close>: awaits \<open>context.close()\<close>, whose outcome is the parameter.\<close>

definition stop :: "unit outcome \<Rightarrow> ScrapingWorker \<Rightarrow> unit outcome \<times> ScrapingWorker" where
  "stop closed w =
     (case closed of Raises e \<Rightarrow> (Raises e, w)
      | Returns _ \<Rightarrow> (Returns (), w\<lparr>context_closed := True\<rparr>))"

text \<open>
  The page content \<open>visit_job_page\<close> returns is tested for truth: \<open>None\<close> and the
  empty string are false.
\<close>

definition truthy_content :: "string option \<Rightarrow> bool" where
  "truthy_content c = (case c of None \<Rightarrow> False | Some s \<Rightarrow> s \<noteq> [])"

text \<open>
  \<open>job_details_collector\<close>. The modules \<open>src.navigation\<close> and \<open>src.parsing\<close> are
  not among the sources: \<open>visited\<close> is the outcome of the awaited
  \<open>visit_job_page\<close>, \<open>extract_details\<close> the parser, applied to the content only
  when that content is true.
\<close>

definition job_details_collector ::
  "string option outcome \<Rightarrow> (string \<Rightarrow> (string \<times> string) outcome) \<Rightarrow> RawJob
     \<Rightarrow> RawJob option outcome" where
  "job_details_collector visited extract_details job =
     (case visited of
        Raises e \<Rightarrow> Raises e
      | Returns None \<Rightarrow> Returns None
      | Returns (Some job_page_content) \<Rightarrow>
          if truthy_content (Some job_page_content) then
            (case extract_details job_page_content of
               Raises e \<Rightarrow> Raises e
             | Returns (details, metadata) \<Rightarrow>
                 Returns (Some (update_data job details metadata)))
          else Returns None)"

section \<open>index_job\<close>













section \<open>JobIndexing: the state\<close>

text \<open>
  Tasks are the units the event loop schedules. A task is suspended at an
  \<open>await\<close>; its program counter names that point, or how the task ended. A consumer
  that ended keeps the item it had dequeued and not acknowledged, if any.
\<close>

datatype task_id = Producer | Consumer nat

datatype ppc = PNew | PFeed | PPut RawJob | PDone | PRaised exn | PCancelled

record producer_task =
  ppc :: ppc
  pworker :: "nat option"
  pcancel :: bool

datatype cpc = CNew | CGet | CFetch RawJob | CIndex RawJob
  | CRaised exn "RawJob option" | CCancelled "RawJob option"

record consumer_task =
  cpc :: cpc
  cworker :: "nat option"
  ccancel :: bool

datatype rpc = RInit | RAwaitProducer | RJoin | RJoinWoken | RDone | RRaised exn

text \<open>The calls made on external resources and on tasks, in the order they are made.\<close>

datatype effect = EngineStart | BrowserLaunch bool | ClientCreate
  | TaskCancel task_id | WorkerStop nat | BrowserClose | EngineStop

text \<open>
  The fields of \<open>JobIndexing\<close>. Worker objects live in \<open>workers\<close>, in the order
  they were constructed, and are referred to by their position there (their address):
  \<open>worker_pool\<close> and the local variable \<open>worker\<close> of a task hold addresses.
  \<open>producer\<close>, \<open>consumers\<close> and \<open>run_pc\<close> are the tasks \<open>run()\<close> creates
  and the point \<open>run()\<close> itself has reached; \<open>effects\<close> is the log of calls.
\<close>

record JobIndexing =
  query :: "string option"
  conccurency_lvl :: int
  job_queue :: Queue
  headless :: bool
  playwright_engine :: "handle option"
  browser :: "handle option"
  hrflow_client :: "handle option"
  workers :: "ScrapingWorker list"
  worker_pool :: "nat list"
  tasks :: "task_id list"
  producer :: "producer_task option"
  consumers :: "consumer_task list"
  run_pc :: rpc
  effects :: "effect list"

text \<open>\<open>__init__\<close>, and its default arguments.\<close>

definition JobIndexing_init :: "string option \<Rightarrow> int \<Rightarrow> bool \<Rightarrow> int \<Rightarrow> JobIndexing" where
  "JobIndexing_init search_query conccurent_scraper_count is_headless data_buffer_size =
     \<lparr>query = search_query, conccurency_lvl = conccurent_scraper_count,
      job_queue = Queue_init data_buffer_size, headless = is_headless,
      playwright_engine = None, browser = None, hrflow_client = None,
      workers = [], worker_pool = [], tasks = [],
      producer = None, consumers = [], run_pc = RInit, effects = []\<rparr>"

definition JobIndexing_default :: JobIndexing where
  "JobIndexing_default = JobIndexing_init None 1 False (- 1)"

section \<open>Acquisition and teardown\<close>

text \<open>
  \<open>__aenter__\<close> awaits the start of the Playwright engine, then the launch of the
  browser, then builds the HrFlow client. The three parameters are the outcomes of
  these calls. A call is logged when it is made; the field is set when it returned.
\<close>

definition log :: "effect \<Rightarrow> JobIndexing \<Rightarrow> JobIndexing" where
  "log ef s = s\<lparr>effects := effects s @ [ef]\<rparr>"

definition aenter ::
  "unit outcome \<Rightarrow> unit outcome \<Rightarrow> unit outcome \<Rightarrow> JobIndexing \<Rightarrow> unit outcome \<times> JobIndexing" where
  "aenter started launched client s =
     (let s0 = log EngineStart s in
      case started of
        Raises e \<Rightarrow> (Raises e, s0)
      | Returns _ \<Rightarrow>
          (let s1 = log (BrowserLaunch (headless s))
                      (s0\<lparr>playwright_engine := Some PlaywrightEngine\<rparr>) in
           case launched of
             Raises e \<Rightarrow> (Raises e, s1)
           | Returns _ \<Rightarrow>
               (let s2 = log ClientCreate
                           (s1\<lparr>browser := Some (ChromiumBrowser (headless s))\<rparr>) in
                case client of
                  Raises e \<Rightarrow> (Raises e, s2)
                | Returns _ \<Rightarrow> (Returns (), s2\<lparr>hrflow_client := Some HrflowClient\<rparr>))))"

text \<open>An effect that releases a resource.\<close>

definition is_release :: "effect \<Rightarrow> bool" where
  "is_release ef =
     (case ef of WorkerStop _ \<Rightarrow> True | BrowserClose \<Rightarrow> True | EngineStop \<Rightarrow> True
      | _ \<Rightarrow> False)"

text \<open>
  \<open>Task.cancelled()\<close> and \<open>Task.cancel()\<close>. Cancelling a task that is done changes
  nothing; cancelling a pending task requests that \<open>CancelledError\<close> be thrown into
  it when the event loop next runs it.
\<close>

definition producer_done :: "producer_task \<Rightarrow> bool" where
  "producer_done p = (case ppc p of PDone \<Rightarrow> True | PRaised _ \<Rightarrow> True | PCancelled \<Rightarrow> True
                      | _ \<Rightarrow> False)"

definition consumer_done :: "consumer_task \<Rightarrow> bool" where
  "consumer_done c = (case cpc c of CRaised _ _ \<Rightarrow> True | CCancelled _ \<Rightarrow> True | _ \<Rightarrow> False)"

definition task_cancelled :: "task_id \<Rightarrow> JobIndexing \<Rightarrow> bool" where
  "task_cancelled t s =
     (case t of
        Producer \<Rightarrow> (case producer s of None \<Rightarrow> False | Some p \<Rightarrow> ppc p = PCancelled)
      | Consumer i \<Rightarrow>
          i < length (consumers s)
          \<and> (case cpc (consumers s ! i) of CCancelled _ \<Rightarrow> True | _ \<Rightarrow> False))"

definition cancel_producer :: "producer_task \<Rightarrow> producer_task" where
  "cancel_producer p = (if producer_done p then p else p\<lparr>pcancel := True\<rparr>)"

definition cancel_consumer :: "consumer_task \<Rightarrow> consumer_task" where
  "cancel_consumer c = (if consumer_done c then c else c\<lparr>ccancel := True\<rparr>)"

definition cancel_task :: "task_id \<Rightarrow> JobIndexing \<Rightarrow> JobIndexing" where
  "cancel_task t s =
     (case t of
        Producer \<Rightarrow> (log (TaskCancel t) s)\<lparr>producer := map_option cancel_producer (producer s)\<rparr>
      | Consumer i \<Rightarrow>
          (log (TaskCancel t) s)
            \<lparr>consumers := (if i < length (consumers s)
                            then (consumers s)[i := cancel_consumer (consumers s ! i)]
                            else consumers s)\<rparr>)"

text \<open>The first loop of \<open>__aexit__\<close>: every task not already cancelled is cancelled.\<close>

fun cancel_tasks :: "task_id list \<Rightarrow> JobIndexing \<Rightarrow> JobIndexing" where
  "cancel_tasks [] s = s"
| "cancel_tasks (t # ts) s =
     cancel_tasks ts (if \<not> task_cancelled t s then cancel_task t s else s)"

text \<open>
  The second loop: \<open>await worker.stop()\<close> for each worker of the pool, in the order of
  the pool. \<open>closing a\<close> is the outcome of \<open>context.close()\<close> for the worker at
  address \<open>a\<close>. An exception leaves the loop. (The pool holds addresses of
  constructed workers only; an address outside \<open>workers\<close> is skipped.)
\<close>

fun stop_workers ::
  "(nat \<Rightarrow> unit outcome) \<Rightarrow> nat list \<Rightarrow> JobIndexing \<Rightarrow> unit outcome \<times> JobIndexing" where
  "stop_workers closing [] s = (Returns (), s)"
| "stop_workers closing (a # as) s =
     (if a < length (workers s) then
        (case stop (closing a) (workers s ! a) of
           (Raises e, w) \<Rightarrow> (Raises e, log (WorkerStop a) s)
         | (Returns _, w) \<Rightarrow>
             stop_workers closing as ((log (WorkerStop a) s)\<lparr>workers := (workers s)[a := w]\<rparr>))
      else stop_workers closing as s)"

text \<open>
  \<open>__aexit__\<close>: cancel the tasks, stop the workers, close the browser if there is one,
  stop the engine if there is one. \<open>closed\<close> and \<open>stopped\<close> are the outcomes of
  \<open>browser.close()\<close> and \<open>playwright_engine.stop()\<close>.
\<close>

definition aexit ::
  "(nat \<Rightarrow> unit outcome) \<Rightarrow> unit outcome \<Rightarrow> unit outcome \<Rightarrow> JobIndexing
     \<Rightarrow> unit outcome \<times> JobIndexing" where
  "aexit closing closed stopped s =
     (let s1 = cancel_tasks (tasks s) s in
      case stop_workers closing (worker_pool s1) s1 of
        (Raises e, s2) \<Rightarrow> (Raises e, s2)
      | (Returns _, s2) \<Rightarrow>
          (case (if browser s2 \<noteq> None
                 then (closed, log BrowserClose s2) else (Returns (), s2)) of
             (Raises e, s3) \<Rightarrow> (Raises e, s3)
           | (Returns _, s3) \<Rightarrow>
               (if playwright_engine s3 \<noteq> None
                then (stopped, log EngineStop s3) else (Returns (), s3))))"

section \<open>run(): the tasks and the event loop\<close>

text \<open>
  The event loop runs one task at a time, from one \<open>await\<close> to the next; such a run
  is one step. A label names the task that runs and carries what the environment
  answered at the \<open>await\<close> the task resumes from.
\<close>

datatype label =
    RunSpawn
  | RunResume
  | ProducerStart worker_io
  | ProducerNext "RawJob option outcome"
  | ProducerPut
  | ConsumerStart nat worker_io
  | ConsumerGet nat
  | ConsumerFetched nat "string option outcome" "(string \<times> string) outcome"
  | ConsumerIndexed nat "unit outcome"
  | Deliver task_id

definition new_producer :: producer_task where
  "new_producer = \<lparr>ppc = PNew, pworker = None, pcancel = False\<rparr>"

definition new_consumer :: consumer_task where
  "new_consumer = \<lparr>cpc = CNew, cworker = None, ccancel = False\<rparr>"

text \<open>
  \<open>run()\<close> up to its first \<open>await\<close>: one producer task, one consumer task for each
  element of \<open>range(self.conccurency_lvl)\<close>, all appended to \<open>self.tasks\<close>.
\<close>

definition run_spawn :: "JobIndexing \<Rightarrow> JobIndexing option" where
  "run_spawn s =
     (if run_pc s = RInit then
        Some (s\<lparr>producer := Some new_producer,
                consumers := replicate (nat (conccurency_lvl s)) new_consumer,
                tasks := tasks s @ Producer # map Consumer [0..<nat (conccurency_lvl s)],
                run_pc := RAwaitProducer\<rparr>)
      else None)"

text \<open>The last loop of \<open>run()\<close>: \<open>consumer.cancel()\<close> for every consumer task.\<close>

fun cancel_each :: "task_id list \<Rightarrow> JobIndexing \<Rightarrow> JobIndexing" where
  "cancel_each [] s = s"
| "cancel_each (t # ts) s = cancel_each ts (cancel_task t s)"

definition cancel_consumers :: "JobIndexing \<Rightarrow> JobIndexing" where
  "cancel_consumers s =
     (cancel_each (map Consumer [0..<length (consumers s)]) s)\<lparr>run_pc := RDone\<rparr>"

text \<open>
  \<open>run()\<close> resumes from \<open>await producer_task\<close> when the producer task is done: its
  exception, if any, is raised in \<open>run()\<close>; otherwise \<open>join()\<close> suspends if items
  are unfinished and else returns at once, and the consumers are cancelled. From
  \<open>join()\<close> it resumes once \<open>task_done\<close> has set the event it waits for.
\<close>

definition run_resume :: "JobIndexing \<Rightarrow> JobIndexing option" where
  "run_resume s =
     (case run_pc s of
        RAwaitProducer \<Rightarrow>
          (case producer s of
             None \<Rightarrow> None
           | Some p \<Rightarrow>
               (case ppc p of
                  PDone \<Rightarrow>
                    Some (if unfinished_tasks (job_queue s) > 0 then s\<lparr>run_pc := RJoin\<rparr>
                          else cancel_consumers s)
                | PRaised e \<Rightarrow> Some (s\<lparr>run_pc := RRaised e\<rparr>)
                | PCancelled \<Rightarrow> Some (s\<lparr>run_pc := RRaised CancelledError\<rparr>)
                | _ \<Rightarrow> None))
      | RJoinWoken \<Rightarrow> Some (cancel_consumers s)
      | _ \<Rightarrow> None)"

text \<open>A constructed worker is appended to the pool.\<close>

definition add_worker :: "ScrapingWorker \<Rightarrow> JobIndexing \<Rightarrow> JobIndexing" where
  "add_worker w s =
     s\<lparr>workers := workers s @ [w], worker_pool := worker_pool s @ [length (workers s)]\<rparr>"

text \<open>\<open>job_producer\<close>: construct the feed worker, then put every job of the feed.\<close>

definition producer_start :: "worker_io \<Rightarrow> JobIndexing \<Rightarrow> JobIndexing option" where
  "producer_start io s =
     (case producer s of
        None \<Rightarrow> None
      | Some p \<Rightarrow>
          if ppc p = PNew \<and> \<not> pcancel p then
            (case ScrapingWorker_init (browser s) None ''Feed Scraping'' io of
               Raises e \<Rightarrow> Some (s\<lparr>producer := Some (p\<lparr>ppc := PRaised e\<rparr>)\<rparr>)
             | Returns w \<Rightarrow>
                 Some ((add_worker w s)
                         \<lparr>producer := Some (p\<lparr>ppc := PFeed,
                                               pworker := Some (length (workers s))\<rparr>)\<rparr>))
          else None)"

definition producer_next :: "RawJob option outcome \<Rightarrow> JobIndexing \<Rightarrow> JobIndexing option" where
  "producer_next fed s =
     (case producer s of
        None \<Rightarrow> None
      | Some p \<Rightarrow>
          if ppc p = PFeed \<and> \<not> pcancel p then
            (case fed of
               Raises e \<Rightarrow> Some (s\<lparr>producer := Some (p\<lparr>ppc := PRaised e\<rparr>)\<rparr>)
             | Returns None \<Rightarrow> Some (s\<lparr>producer := Some (p\<lparr>ppc := PDone\<rparr>)\<rparr>)
             | Returns (Some job) \<Rightarrow>
                 (case put job (job_queue s) of
                    None \<Rightarrow> Some (s\<lparr>producer := Some (p\<lparr>ppc := PPut job\<rparr>)\<rparr>)
                  | Some q \<Rightarrow> Some (s\<lparr>job_queue := q\<rparr>)))
          else None)"

definition producer_put :: "JobIndexing \<Rightarrow> JobIndexing option" where
  "producer_put s =
     (case producer s of
        None \<Rightarrow> None
      | Some p \<Rightarrow>
          (case ppc p of
             PPut job \<Rightarrow>
               if pcancel p then None
               else (case put job (job_queue s) of
                       None \<Rightarrow> None
                     | Some q \<Rightarrow> Some (s\<lparr>job_queue := q, producer := Some (p\<lparr>ppc := PFeed\<rparr>)\<rparr>))
           | _ \<Rightarrow> None))"

text \<open>\<open>job_consumer\<close>: construct the detail worker, then loop.\<close>

definition set_consumer :: "nat \<Rightarrow> consumer_task \<Rightarrow> JobIndexing \<Rightarrow> JobIndexing" where
  "set_consumer i c s = s\<lparr>consumers := (consumers s)[i := c]\<rparr>"

definition consumer_start :: "nat \<Rightarrow> worker_io \<Rightarrow> JobIndexing \<Rightarrow> JobIndexing option" where
  "consumer_start i io s =
     (if i < length (consumers s) \<and> cpc (consumers s ! i) = CNew
         \<and> \<not> ccancel (consumers s ! i) then
        (case ScrapingWorker_init (browser s) None ''Job Details Scraping'' io of
           Raises e \<Rightarrow> Some (set_consumer i ((consumers s ! i)\<lparr>cpc := CRaised e None\<rparr>) s)
         | Returns w \<Rightarrow>
             Some (set_consumer i ((consumers s ! i)\<lparr>cpc := CGet,
                                                     cworker := Some (length (workers s))\<rparr>)
                     (add_worker w s)))
      else None)"

definition consumer_get :: "nat \<Rightarrow> JobIndexing \<Rightarrow> JobIndexing option" where
  "consumer_get i s =
     (if i < length (consumers s) \<and> cpc (consumers s ! i) = CGet
         \<and> \<not> ccancel (consumers s ! i) then
        (case get_nowait (job_queue s) of
           None \<Rightarrow> None
         | Some (initial_job, q) \<Rightarrow>
             Some ((set_consumer i ((consumers s ! i)\<lparr>cpc := CFetch initial_job\<rparr>) s)
                     \<lparr>job_queue := q\<rparr>))
      else None)"

text \<open>
  \<open>self.job_queue.task_done()\<close> at the end of an iteration, then back to
  \<open>get()\<close>. When the count reaches zero the event is set, which wakes \<open>run()\<close> if
  it is suspended in \<open>join()\<close>.
\<close>

definition acknowledge :: "nat \<Rightarrow> RawJob \<Rightarrow> JobIndexing \<Rightarrow> JobIndexing" where
  "acknowledge i job s =
     (case task_done (job_queue s) of
        Raises e \<Rightarrow> set_consumer i ((consumers s ! i)\<lparr>cpc := CRaised e (Some job)\<rparr>) s
      | Returns q \<Rightarrow>
          (set_consumer i ((consumers s ! i)\<lparr>cpc := CGet\<rparr>) s)
            \<lparr>job_queue := q,
             run_pc := (if unfinished_tasks q = 0 \<and> run_pc s = RJoin then RJoinWoken
                        else run_pc s)\<rparr>)"

definition consumer_fetched ::
  "nat \<Rightarrow> string option outcome \<Rightarrow> (string \<times> string) outcome \<Rightarrow> JobIndexing
     \<Rightarrow> JobIndexing option" where
  "consumer_fetched i visited extracted s =
     (if i < length (consumers s) \<and> \<not> ccancel (consumers s ! i) then
        (case cpc (consumers s ! i) of
           CFetch initial_job \<Rightarrow>
             (case job_details_collector visited (\<lambda>_. extracted) initial_job of
                Raises e \<Rightarrow>
                  Some (set_consumer i
                          ((consumers s ! i)\<lparr>cpc := CRaised e (Some initial_job)\<rparr>) s)
              | Returns None \<Rightarrow> Some (acknowledge i initial_job s)
              | Returns (Some full_job) \<Rightarrow>
                  Some (set_consumer i ((consumers s ! i)\<lparr>cpc := CIndex full_job\<rparr>) s))
         | _ \<Rightarrow> None)
      else None)"

text \<open>
  \<open>await asyncio.to_thread(index_job, ...)\<close> returns or raises what \<open>index_job\<close>
  does in its thread; that outcome is the parameter.
\<close>

definition consumer_indexed :: "nat \<Rightarrow> unit outcome \<Rightarrow> JobIndexing \<Rightarrow> JobIndexing option" where
  "consumer_indexed i indexed s =
     (if i < length (consumers s) \<and> \<not> ccancel (consumers s ! i) then
        (case cpc (consumers s ! i) of
           CIndex full_job \<Rightarrow>
             (case indexed of
                Raises e \<Rightarrow>
                  Some (set_consumer i ((consumers s ! i)\<lparr>cpc := CRaised e (Some full_job)\<rparr>) s)
              | Returns _ \<Rightarrow> Some (acknowledge i full_job s))
         | _ \<Rightarrow> None)
      else None)"

text \<open>
  A pending task whose cancellation was requested gets \<open>CancelledError\<close> at the
  \<open>await\<close> it is suspended at. Neither coroutine catches it: the task ends cancelled,
  a consumer without acknowledging the item it holds.
\<close>

definition held :: "consumer_task \<Rightarrow> RawJob option" where
  "held c = (case cpc c of CFetch job \<Rightarrow> Some job | CIndex job \<Rightarrow> Some job
             | CRaised _ h \<Rightarrow> h | CCancelled h \<Rightarrow> h | _ \<Rightarrow> None)"

definition deliver :: "task_id \<Rightarrow> JobIndexing \<Rightarrow> JobIndexing option" where
  "deliver t s =
     (case t of
        Producer \<Rightarrow>
          (case producer s of
             None \<Rightarrow> None
           | Some p \<Rightarrow>
               if pcancel p \<and> \<not> producer_done p
               then Some (s\<lparr>producer := Some (p\<lparr>ppc := PCancelled\<rparr>)\<rparr>) else None)
      | Consumer i \<Rightarrow>
          if i < length (consumers s) \<and> ccancel (consumers s ! i)
             \<and> \<not> consumer_done (consumers s ! i)
          then Some (set_consumer i
                       ((consumers s ! i)\<lparr>cpc := CCancelled (held (consumers s ! i))\<rparr>) s)
          else None)"

fun step :: "label \<Rightarrow> JobIndexing \<Rightarrow> JobIndexing option" where
  "step RunSpawn s = run_spawn s"
| "step RunResume s = run_resume s"
| "step (ProducerStart io) s = producer_start io s"
| "step (ProducerNext fed) s = producer_next fed s"
| "step ProducerPut s = producer_put s"
| "step (ConsumerStart i io) s = consumer_start i io s"
| "step (ConsumerGet i) s = consumer_get i s"
| "step (ConsumerFetched i visited extracted) s = consumer_fetched i visited extracted s"
| "step (ConsumerIndexed i indexed) s = consumer_indexed i indexed s"
| "step (Deliver t) s = deliver t s"

text \<open>A schedule is a list of labels; it runs if every step is enabled in turn.\<close>

fun exec :: "label list \<Rightarrow> JobIndexing \<Rightarrow> JobIndexing option" where
  "exec [] s = Some s"
| "exec (l # ls) s = (case step l s of None \<Rightarrow> None | Some s' \<Rightarrow> exec ls s')"

text \<open>The state \<open>run()\<close> starts from: constructed, and entered without failure.\<close>

definition entered :: "string option \<Rightarrow> int \<Rightarrow> bool \<Rightarrow> int \<Rightarrow> JobIndexing" where
  "entered search_query n is_headless data_buffer_size =
     snd (aenter (Returns ()) (Returns ()) (Returns ())
            (JobIndexing_init search_query n is_headless data_buffer_size))"

text \<open>A construction in which every browser call returns; \<open>r\<close> is the generator's output.\<close>

definition io_ok :: "nat \<Rightarrow> worker_io" where
  "io_ok r = \<lparr>rand = r, new_context = Returns (), new_page = Returns (), stealth = Returns ()\<rparr>"

text \<open>
  Items a consumer has dequeued and not acknowledged: one while it fetches or indexes,
  and one for ever if it ended holding an item.
\<close>

definition outstanding :: "consumer_task \<Rightarrow> nat" where
  "outstanding c = (case held c of None \<Rightarrow> 0 | Some _ \<Rightarrow> 1)"

definition in_flight :: "JobIndexing \<Rightarrow> nat" where
  "in_flight s = sum_list (map outstanding (consumers s))"

text \<open>
  The invariants of the run. The counter of the queue equals the buffered items plus
  the items held by consumers; \<open>join()\<close> waits, or has returned, only once the
  producer is done, and has returned only with the counter at zero.
\<close>

definition counted :: "JobIndexing \<Rightarrow> bool" where
  "counted s = (unfinished_tasks (job_queue s) = length (items (job_queue s)) + in_flight s)"

definition joined :: "JobIndexing \<Rightarrow> bool" where
  "joined s = (run_pc s = RJoinWoken \<or> run_pc s = RDone)"

definition join_inv :: "JobIndexing \<Rightarrow> bool" where
  "join_inv s =
     ((run_pc s = RJoin \<or> joined s \<longrightarrow> (\<exists>p. producer s = Some p \<and> ppc p = PDone))
      \<and> (joined s \<longrightarrow> unfinished_tasks (job_queue s) = 0))"

definition drain_inv :: "JobIndexing \<Rightarrow> bool" where
  "drain_inv s = (counted s \<and> join_inv s \<and> (run_pc s = RInit \<longrightarrow> consumers s = []))"

text \<open>A job record as the feed yields it.\<close>

definition job_a :: RawJob where
  "job_a = \<lparr>in_platform_id = ''a1'', summary = ''dev'', job_details = None, job_metadata = None\<rparr>"

text \<open>
  Cancellation during the run: before \<open>run()\<close> has finished no consumer has a
  cancellation requested; the producer is never cancelled; and an exception \<open>run()\<close>
  raised is the one the producer task ended with.
\<close>

definition cancel_inv :: "JobIndexing \<Rightarrow> bool" where
  "cancel_inv s =
     ((run_pc s \<noteq> RDone \<longrightarrow> (\<forall>c \<in> set (consumers s). \<not> ccancel c))
      \<and> (\<forall>p. producer s = Some p \<longrightarrow> \<not> pcancel p \<and> ppc p \<noteq> PCancelled)
      \<and> (\<forall>e. run_pc s = RRaised e \<longrightarrow> (\<exists>p. producer s = Some p \<and> ppc p = PRaised e))
      \<and> (run_pc s = RInit \<longrightarrow> consumers s = [] \<and> producer s = None))"

text \<open>A construction in which \<open>browser.new_context\<close> raises.\<close>

definition io_fail :: "nat \<Rightarrow> exn \<Rightarrow> worker_io" where
  "io_fail r e = \<lparr>rand = r, new_context = Raises e, new_page = Returns (), stealth = Returns ()\<rparr>"

text \<open>
  Ownership of workers. A task that has not constructed its worker holds none; one
  that has holds the address of a worker of its own purpose. \<open>cws\<close> and \<open>pws\<close>
  are the local variables \<open>worker\<close> of the consumer tasks and of the producer task;
  \<open>holders\<close> counts those that are set. Every worker object is in the pool.
\<close>

definition wf_consumer :: "ScrapingWorker list \<Rightarrow> consumer_task \<Rightarrow> bool" where
  "wf_consumer ws c =
     (case cworker c of
        None \<Rightarrow> cpc c = CNew \<or> consumer_done c
      | Some w \<Rightarrow> w < length ws \<and> purpose (ws ! w) = ''Job Details Scraping''
                  \<and> cpc c \<noteq> CNew)"

definition wf_producer :: "ScrapingWorker list \<Rightarrow> producer_task \<Rightarrow> bool" where
  "wf_producer ws p =
     (case pworker p of
        None \<Rightarrow> ppc p = PNew \<or> producer_done p
      | Some w \<Rightarrow> w < length ws \<and> purpose (ws ! w) = ''Feed Scraping'' \<and> ppc p \<noteq> PNew)"

definition cws :: "JobIndexing \<Rightarrow> nat option list" where
  "cws s = map cworker (consumers s)"

definition pws :: "JobIndexing \<Rightarrow> nat option list" where
  "pws s = (case producer s of None \<Rightarrow> [] | Some p \<Rightarrow> [pworker p])"

definition holders :: "nat option list \<Rightarrow> nat" where
  "holders xs = length (filter (\<lambda>x. x \<noteq> None) xs)"

definition own_inv :: "JobIndexing \<Rightarrow> bool" where
  "own_inv s =
     (worker_pool s = [0..<length (workers s)]
      \<and> (\<forall>i < length (consumers s). wf_consumer (workers s) (consumers s ! i))
      \<and> (\<forall>p. producer s = Some p \<longrightarrow> wf_producer (workers s) p)
      \<and> (\<forall>i j. i < length (cws s) \<longrightarrow> j < length (cws s) \<longrightarrow> cws s ! i \<noteq> None
             \<longrightarrow> cws s ! i = cws s ! j \<longrightarrow> i = j)
      \<and> length (workers s) = holders (cws s) + holders (pws s))"

text \<open>Before \<open>run()\<close> there are no tasks; from its first step on, one producer task
  and the consumer tasks of \<open>range(self.conccurency_lvl)\<close>.\<close>

definition spawn_inv :: "JobIndexing \<Rightarrow> bool" where
  "spawn_inv s =
     ((run_pc s = RInit \<longrightarrow> tasks s = [] \<and> consumers s = [] \<and> producer s = None
                             \<and> workers s = [] \<and> worker_pool s = [])
      \<and> (run_pc s \<noteq> RInit \<longrightarrow>
            tasks s = Producer # map Consumer [0..<nat (conccurency_lvl s)]
            \<and> length (consumers s) = nat (conccurency_lvl s) \<and> producer s \<noteq> None))"

section \<open>Properties of acquisition and teardown\<close>

lemma task_cancelled_cancel_task [simp]:
  "task_cancelled t (cancel_task t' s) = task_cancelled t s"
  by (cases t; cases t')
     (auto simp: task_cancelled_def cancel_task_def log_def cancel_consumer_def
        cancel_producer_def nth_list_update split: option.splits cpc.splits)

lemma effects_cancel_task [simp]:
  "effects (cancel_task t s) = effects s @ [TaskCancel t]"
  by (cases t) (simp_all add: cancel_task_def log_def)

lemma cancel_task_frame [simp]:
  "workers (cancel_task t s) = workers s"
  "worker_pool (cancel_task t s) = worker_pool s"
  "browser (cancel_task t s) = browser s"
  "playwright_engine (cancel_task t s) = playwright_engine s"
  "job_queue (cancel_task t s) = job_queue s"
  "tasks (cancel_task t s) = tasks s"
  "run_pc (cancel_task t s) = run_pc s"
  "conccurency_lvl (cancel_task t s) = conccurency_lvl s"
  "length (consumers (cancel_task t s)) = length (consumers s)"
  by (cases t; simp add: cancel_task_def log_def)+

lemma effects_cancel_tasks:
  "effects (cancel_tasks ts s)
     = effects s @ map TaskCancel (filter (\<lambda>t. \<not> task_cancelled t s) ts)"
proof (induction ts arbitrary: s)
  case Nil
  show ?case by simp
next
  case (Cons t ts)
  have same: "\<And>u. task_cancelled u (if \<not> task_cancelled t s then cancel_task t s else s)
                 = task_cancelled u s"
    by simp
  show ?case
    by (simp add: Cons.IH same cong: if_cong)
qed

lemma cancel_tasks_frame [simp]:
  "workers (cancel_tasks ts s) = workers s"
  "worker_pool (cancel_tasks ts s) = worker_pool s"
  "browser (cancel_tasks ts s) = browser s"
  "playwright_engine (cancel_tasks ts s) = playwright_engine s"
  by (induction ts arbitrary: s; simp)+

lemma stop_workers_all_ok:
  "\<forall>a\<in>set pool. a < length (workers s) \<and> closing a = Returns () \<Longrightarrow>
   fst (stop_workers closing pool s) = Returns ()
   \<and> effects (snd (stop_workers closing pool s)) = effects s @ map WorkerStop pool
   \<and> browser (snd (stop_workers closing pool s)) = browser s
   \<and> playwright_engine (snd (stop_workers closing pool s)) = playwright_engine s"
proof (induction pool arbitrary: s)
  case Nil
  show ?case by simp
next
  case (Cons a pool)
  let ?s' = "(log (WorkerStop a) s)
               \<lparr>workers := (workers s)[a := snd (stop (Returns ()) (workers s ! a))]\<rparr>"
  have "\<forall>x\<in>set pool. x < length (workers ?s') \<and> closing x = Returns ()"
    using Cons.prems by (simp add: log_def)
  from Cons.IH[OF this] show ?case
    using Cons.prems by (simp add: stop_def log_def)
qed

lemma stop_workers_first_failure:
  "\<forall>a\<in>set before. a < length (workers s) \<and> closing a = Returns () \<Longrightarrow>
   a < length (workers s) \<Longrightarrow> closing a = Raises e \<Longrightarrow>
   fst (stop_workers closing (before @ a # rest) s) = Raises e
   \<and> effects (snd (stop_workers closing (before @ a # rest) s))
       = effects s @ map WorkerStop before @ [WorkerStop a]"
proof (induction before arbitrary: s)
  case Nil
  then show ?case by (simp add: stop_def log_def)
next
  case (Cons b before)
  let ?s' = "(log (WorkerStop b) s)
               \<lparr>workers := (workers s)[b := snd (stop (Returns ()) (workers s ! b))]\<rparr>"
  have 1: "\<forall>x\<in>set before. x < length (workers ?s') \<and> closing x = Returns ()"
    using Cons.prems by (simp add: log_def)
  have 2: "a < length (workers ?s')" using Cons.prems by (simp add: log_def)
  from Cons.IH[OF 1 2 Cons.prems(3)] show ?case
    using Cons.prems by (simp add: stop_def log_def)
qed

text \<open>
  C3, as the claim states it, fails: when the browser launch raises after the engine has
  started, \<open>__aenter__\<close> lets the exception out with the engine still held and no
  release call made.
\<close>

theorem C3_launch_failure_leaks_engine:
  "aenter (Returns ()) (Raises (External ''LaunchError'')) (Returns ()) JobIndexing_default
   = (Raises (External ''LaunchError''),
      JobIndexing_default\<lparr>playwright_engine := Some PlaywrightEngine,
        effects := [EngineStart, BrowserLaunch False]\<rparr>)"
  by (simp add: aenter_def log_def JobIndexing_default_def JobIndexing_init_def)

text \<open>
  C3 (amended): when a step of \<open>__aenter__\<close> raises, the exception is that step's and
  propagates at once; \<open>__aenter__\<close> makes no release call, and what the earlier steps
  acquired (the engine, then the browser) stays held in the fields.
\<close>

theorem C3_aenter_failure_releases_nothing:
  "fst (aenter started launched client s) = Raises e \<Longrightarrow>
     filter is_release (effects (snd (aenter started launched client s)))
       = filter is_release (effects s)
     \<and> (started = Returns () \<longrightarrow>
          playwright_engine (snd (aenter started launched client s)) = Some PlaywrightEngine)
     \<and> (started = Returns () \<and> launched = Returns () \<longrightarrow>
          browser (snd (aenter started launched client s)) = Some (ChromiumBrowser (headless s)))
     \<and> (started = Raises e \<or> (started = Returns () \<and> launched = Raises e)
          \<or> (started = Returns () \<and> launched = Returns () \<and> client = Raises e))"
  by (auto simp: aenter_def log_def is_release_def Let_def split: outcome.splits)

theorem C3_aenter_failure_witness:
  "fst (aenter (Returns ()) (Returns ()) (Raises (External ''KeyError'')) JobIndexing_default)
     = Raises (External ''KeyError'')
   \<and> filter is_release
        (effects (snd (aenter (Returns ()) (Returns ()) (Raises (External ''KeyError''))
                         JobIndexing_default))) = []
   \<and> playwright_engine (snd (aenter (Returns ()) (Returns ()) (Raises (External ''KeyError''))
                         JobIndexing_default)) = Some PlaywrightEngine
   \<and> browser (snd (aenter (Returns ()) (Returns ()) (Raises (External ''KeyError''))
                         JobIndexing_default)) = Some (ChromiumBrowser False)"
proof -
  have f: "fst (aenter (Returns ()) (Returns ()) (Raises (External ''KeyError''))
                  JobIndexing_default) = Raises (External ''KeyError'')"
    by (simp add: aenter_def log_def)
  have h: "headless JobIndexing_default = False" "effects JobIndexing_default = []"
    by (simp_all add: JobIndexing_default_def JobIndexing_init_def)
  from C3_aenter_failure_releases_nothing[OF f] show ?thesis using f h by simp
qed

text \<open>
  C4, as the claim states it, fails: when stopping a worker raises, \<open>__aexit__\<close> ends
  there; the browser is not closed and the engine is not stopped.
\<close>

theorem C4_worker_stop_failure_skips_rest:
  "(case exec [RunSpawn, ProducerStart (io_ok 0)] (entered None 1 False (- 1)) of
      None \<Rightarrow> False
    | Some s \<Rightarrow>
        fst (aexit (\<lambda>_. Raises (External ''TargetClosedError'')) (Returns ()) (Returns ()) s)
          = Raises (External ''TargetClosedError'')
        \<and> effects (snd (aexit (\<lambda>_. Raises (External ''TargetClosedError''))
                           (Returns ()) (Returns ()) s))
          = [EngineStart, BrowserLaunch False, ClientCreate,
             TaskCancel Producer, TaskCancel (Consumer 0), WorkerStop 0])"
  by code_simp

text \<open>
  C4 (amended): \<open>__aexit__\<close> cancels every task not already cancelled, then stops the
  workers in pool order, then closes the browser, then stops the engine. The first
  step that raises ends the teardown: its exception propagates at once and no later
  step is attempted.
\<close>

theorem C4_aexit_order_and_first_failure:
  assumes pool: "\<forall>a\<in>set (worker_pool s). a < length (workers s)"
      and br: "browser s \<noteq> None" and en: "playwright_engine s \<noteq> None"
  shows
   "((\<forall>a\<in>set (worker_pool s). closing a = Returns ()) \<and> closed = Returns () \<longrightarrow>
       fst (aexit closing closed stopped s) = stopped
       \<and> effects (snd (aexit closing closed stopped s))
           = effects s @ map TaskCancel (filter (\<lambda>t. \<not> task_cancelled t s) (tasks s))
             @ map WorkerStop (worker_pool s) @ [BrowserClose, EngineStop])
    \<and> ((\<forall>a\<in>set (worker_pool s). closing a = Returns ()) \<and> closed = Raises e \<longrightarrow>
       fst (aexit closing closed stopped s) = Raises e
       \<and> effects (snd (aexit closing closed stopped s))
           = effects s @ map TaskCancel (filter (\<lambda>t. \<not> task_cancelled t s) (tasks s))
             @ map WorkerStop (worker_pool s) @ [BrowserClose])
    \<and> (worker_pool s = before @ a # rest \<and> (\<forall>x\<in>set before. closing x = Returns ())
         \<and> closing a = Raises e \<longrightarrow>
       fst (aexit closing closed stopped s) = Raises e
       \<and> effects (snd (aexit closing closed stopped s))
           = effects s @ map TaskCancel (filter (\<lambda>t. \<not> task_cancelled t s) (tasks s))
             @ map WorkerStop before @ [WorkerStop a])"
proof -
  let ?s1 = "cancel_tasks (tasks s) s"
  let ?c = "map TaskCancel (filter (\<lambda>t. \<not> task_cancelled t s) (tasks s))"
  let ?r = "stop_workers closing (worker_pool s) ?s1"
  have e1: "effects ?s1 = effects s @ ?c" by (rule effects_cancel_tasks)
  have ok: "(\<forall>a\<in>set (worker_pool s). closing a = Returns ()) \<Longrightarrow>
      fst ?r = Returns ()
      \<and> effects (snd ?r) = effects s @ ?c @ map WorkerStop (worker_pool s)
      \<and> browser (snd ?r) = browser s
      \<and> playwright_engine (snd ?r) = playwright_engine s"
    using stop_workers_all_ok[of "worker_pool s" ?s1 closing] pool e1 by simp
  have bad: "worker_pool s = before @ a # rest \<Longrightarrow> (\<forall>x\<in>set before. closing x = Returns ())
         \<Longrightarrow> closing a = Raises e \<Longrightarrow>
      fst ?r = Raises e
      \<and> effects (snd ?r) = effects s @ ?c @ map WorkerStop before @ [WorkerStop a]"
    using stop_workers_first_failure[of before ?s1 closing a e rest] pool e1 by simp
  show ?thesis
  proof (intro conjI impI)
    assume h: "(\<forall>a\<in>set (worker_pool s). closing a = Returns ()) \<and> closed = Returns ()"
    with ok br en show "fst (aexit closing closed stopped s) = stopped"
      by (cases ?r; cases stopped)
         (auto simp: aexit_def Let_def log_def split: outcome.splits)
    from h ok br en show "effects (snd (aexit closing closed stopped s))
           = effects s @ ?c @ map WorkerStop (worker_pool s) @ [BrowserClose, EngineStop]"
      by (cases ?r; cases stopped)
         (auto simp: aexit_def Let_def log_def split: outcome.splits)
  next
    assume h: "(\<forall>a\<in>set (worker_pool s). closing a = Returns ()) \<and> closed = Raises e"
    with ok br en show "fst (aexit closing closed stopped s) = Raises e"
      by (cases ?r) (auto simp: aexit_def Let_def log_def split: outcome.splits)
    from h ok br en show "effects (snd (aexit closing closed stopped s))
           = effects s @ ?c @ map WorkerStop (worker_pool s) @ [BrowserClose]"
      by (cases ?r) (auto simp: aexit_def Let_def log_def split: outcome.splits)
  next
    assume h: "worker_pool s = before @ a # rest \<and> (\<forall>x\<in>set before. closing x = Returns ())
         \<and> closing a = Raises e"
    with bad show "fst (aexit closing closed stopped s) = Raises e"
      by (cases ?r) (auto simp: aexit_def Let_def split: outcome.splits)
    from h bad show "effects (snd (aexit closing closed stopped s))
           = effects s @ ?c @ map WorkerStop before @ [WorkerStop a]"
      by (cases ?r) (auto simp: aexit_def Let_def split: outcome.splits)
  qed
qed

theorem C4_aexit_order_witness:
  "\<exists>s. exec [RunSpawn, ProducerStart (io_ok 0)] (entered None 1 False (- 1)) = Some s
     \<and> fst (aexit (\<lambda>_. Returns ()) (Returns ()) (Returns ()) s) = Returns ()
     \<and> effects (snd (aexit (\<lambda>_. Returns ()) (Returns ()) (Returns ()) s))
         = [EngineStart, BrowserLaunch False, ClientCreate,
            TaskCancel Producer, TaskCancel (Consumer 0), WorkerStop 0,
            BrowserClose, EngineStop]"
proof -
  define s where
    "s = the (exec [RunSpawn, ProducerStart (io_ok 0)] (entered None 1 False (- 1)))"
  have e: "exec [RunSpawn, ProducerStart (io_ok 0)] (entered None 1 False (- 1)) = Some s"
    unfolding s_def by code_simp
  have pool: "worker_pool s = [0]" and len: "length (workers s) = 1"
    and br: "browser s \<noteq> None" and en: "playwright_engine s \<noteq> None"
    and ts: "tasks s = [Producer, Consumer 0]"
    and ef: "effects s = [EngineStart, BrowserLaunch False, ClientCreate]"
    and nc: "\<not> task_cancelled Producer s" "\<not> task_cancelled (Consumer 0) s"
    unfolding s_def by code_simp+
  have p: "\<forall>a\<in>set (worker_pool s). a < length (workers s)" using pool len by simp
  from C4_aexit_order_and_first_failure[OF p br en, of "\<lambda>_. Returns ()" "Returns ()" "Returns ()"]
  show ?thesis using e pool ts ef nc by simp
qed

section \<open>Properties of the worker and of indexing\<close>

text \<open>
  C5, as the claim states it, fails: an exception of \<open>extract_details\<close> on a page that
  was fetched, or of \<open>visit_job_page\<close>, leaves \<open>job_details_collector\<close>; it does not
  return absent.
\<close>

theorem C5_failure_raises_not_absent:
  "job_details_collector (Returns (Some ''<html>''))
     (\<lambda>_. Raises (External ''ParsingError''))
     \<lparr>in_platform_id = ''a1'', summary = ''dev'', job_details = None, job_metadata = None\<rparr>
   = Raises (External ''ParsingError'')
   \<and> job_details_collector (Raises (External ''TimeoutError''))
     (\<lambda>_. Returns (''d'', ''m''))
     \<lparr>in_platform_id = ''a1'', summary = ''dev'', job_details = None, job_metadata = None\<rparr>
   = Raises (External ''TimeoutError'')"
  by (simp add: job_details_collector_def truthy_content_def)

text \<open>
  C5 (amended): \<open>job_details_collector\<close> returns absent exactly when
  \<open>visit_job_page\<close> returns a false content (\<open>None\<close> or empty); on a true content it
  returns the record updated with what \<open>extract_details\<close> returns; it raises exactly
  when \<open>visit_job_page\<close> raises or \<open>extract_details\<close> raises on the content.
\<close>

theorem C5_collector_outcomes:
  "(job_details_collector visited extract_details job = Returns None
      \<longleftrightarrow> (\<exists>c. visited = Returns c \<and> \<not> truthy_content c))
   \<and> (job_details_collector visited extract_details job = Raises e
      \<longleftrightarrow> visited = Raises e
          \<or> (\<exists>c. visited = Returns (Some c) \<and> c \<noteq> [] \<and> extract_details c = Raises e))
   \<and> (job_details_collector visited extract_details job = Returns (Some full_job)
      \<longleftrightarrow> (\<exists>c d m. visited = Returns (Some c) \<and> c \<noteq> []
            \<and> extract_details c = Returns (d, m) \<and> full_job = update_data job d m))"
  by (auto simp: job_details_collector_def truthy_content_def
        split: outcome.splits option.splits prod.splits)

theorem C5_collector_outcomes_witness:
  "job_details_collector (Returns None) (\<lambda>_. Returns (''d'', ''m''))
     \<lparr>in_platform_id = ''a1'', summary = ''dev'', job_details = None, job_metadata = None\<rparr>
   = Returns None"
  using C5_collector_outcomes[of "Returns None" "\<lambda>_. Returns (''d'', ''m'')"
    "\<lparr>in_platform_id = ''a1'', summary = ''dev'', job_details = None, job_metadata = None\<rparr>"]
  by (simp add: truthy_content_def)



section \<open>The steps of the event loop, case by case\<close>

lemma run_spawn_cases:
  assumes "run_spawn s = Some s'"
  shows "run_pc s = RInit
     \<and> s' = s\<lparr>producer := Some new_producer,
              consumers := replicate (nat (conccurency_lvl s)) new_consumer,
              tasks := tasks s @ Producer # map Consumer [0..<nat (conccurency_lvl s)],
              run_pc := RAwaitProducer\<rparr>"
  using assms by (simp add: run_spawn_def split: if_splits)

lemma run_resume_cases:
  assumes "run_resume s = Some s'"
  shows "(run_pc s = RAwaitProducer \<and> (\<exists>p. producer s = Some p \<and>
           (ppc p = PDone \<and> 0 < unfinished_tasks (job_queue s) \<and> s' = s\<lparr>run_pc := RJoin\<rparr>
            \<or> ppc p = PDone \<and> unfinished_tasks (job_queue s) = 0 \<and> s' = cancel_consumers s
            \<or> (\<exists>e. ppc p = PRaised e \<and> s' = s\<lparr>run_pc := RRaised e\<rparr>)
            \<or> ppc p = PCancelled \<and> s' = s\<lparr>run_pc := RRaised CancelledError\<rparr>)))
         \<or> (run_pc s = RJoinWoken \<and> s' = cancel_consumers s)"
proof (cases "run_pc s")
  case RAwaitProducer
  show ?thesis
  proof (cases "producer s")
    case None
    with RAwaitProducer assms show ?thesis by (simp add: run_resume_def)
  next
    case (Some p)
    with RAwaitProducer assms show ?thesis
      by (cases "ppc p") (simp_all add: run_resume_def split: if_splits)
  qed
qed (use assms in \<open>simp_all add: run_resume_def\<close>)

lemma producer_start_cases:
  assumes "producer_start io s = Some s'"
  shows "\<exists>p. producer s = Some p \<and> ppc p = PNew \<and> \<not> pcancel p
     \<and> ((\<exists>e. ScrapingWorker_init (browser s) None ''Feed Scraping'' io = Raises e
             \<and> s' = s\<lparr>producer := Some (p\<lparr>ppc := PRaised e\<rparr>)\<rparr>)
        \<or> (\<exists>w. ScrapingWorker_init (browser s) None ''Feed Scraping'' io = Returns w
             \<and> s' = (add_worker w s)\<lparr>producer := Some (p\<lparr>ppc := PFeed,
                                            pworker := Some (length (workers s))\<rparr>)\<rparr>))"
proof (cases "producer s")
  case None
  with assms show ?thesis by (simp add: producer_start_def)
next
  case (Some p)
  with assms show ?thesis
    by (cases "ScrapingWorker_init (browser s) None ''Feed Scraping'' io")
       (simp_all add: producer_start_def split: if_splits)
qed

lemma producer_next_cases:
  assumes "producer_next fed s = Some s'"
  shows "\<exists>p. producer s = Some p \<and> ppc p = PFeed \<and> \<not> pcancel p
     \<and> ((\<exists>e. fed = Raises e \<and> s' = s\<lparr>producer := Some (p\<lparr>ppc := PRaised e\<rparr>)\<rparr>)
        \<or> (fed = Returns None \<and> s' = s\<lparr>producer := Some (p\<lparr>ppc := PDone\<rparr>)\<rparr>)
        \<or> (\<exists>job. fed = Returns (Some job) \<and> full (job_queue s)
              \<and> s' = s\<lparr>producer := Some (p\<lparr>ppc := PPut job\<rparr>)\<rparr>)
        \<or> (\<exists>job. fed = Returns (Some job) \<and> \<not> full (job_queue s)
              \<and> s' = s\<lparr>job_queue := put_nowait job (job_queue s)\<rparr>))"
proof (cases "producer s")
  case None
  with assms show ?thesis by (simp add: producer_next_def)
next
  case (Some p)
  show ?thesis
  proof (cases fed)
    case (Raises e)
    with Some assms show ?thesis by (simp add: producer_next_def split: if_splits)
  next
    case (Returns r)
    with Some assms show ?thesis
      by (cases r) (simp_all add: producer_next_def put_def split: if_splits)
  qed
qed

lemma producer_put_cases:
  assumes "producer_put s = Some s'"
  shows "\<exists>p job. producer s = Some p \<and> ppc p = PPut job \<and> \<not> pcancel p
     \<and> \<not> full (job_queue s)
     \<and> s' = s\<lparr>job_queue := put_nowait job (job_queue s),
              producer := Some (p\<lparr>ppc := PFeed\<rparr>)\<rparr>"
proof (cases "producer s")
  case None
  with assms show ?thesis by (simp add: producer_put_def)
next
  case (Some p)
  with assms show ?thesis
    by (cases "ppc p") (simp_all add: producer_put_def put_def split: if_splits)
qed

lemma consumer_start_cases:
  assumes "consumer_start i io s = Some s'"
  shows "i < length (consumers s) \<and> cpc (consumers s ! i) = CNew
     \<and> \<not> ccancel (consumers s ! i)
     \<and> ((\<exists>e. ScrapingWorker_init (browser s) None ''Job Details Scraping'' io = Raises e
            \<and> s' = set_consumer i ((consumers s ! i)\<lparr>cpc := CRaised e None\<rparr>) s)
        \<or> (\<exists>w. ScrapingWorker_init (browser s) None ''Job Details Scraping'' io = Returns w
            \<and> s' = set_consumer i ((consumers s ! i)\<lparr>cpc := CGet,
                       cworker := Some (length (workers s))\<rparr>) (add_worker w s)))"
  using assms
  by (cases "ScrapingWorker_init (browser s) None ''Job Details Scraping'' io")
     (simp_all add: consumer_start_def split: if_splits)

lemma consumer_get_cases:
  assumes "consumer_get i s = Some s'"
  shows "i < length (consumers s) \<and> cpc (consumers s ! i) = CGet
     \<and> \<not> ccancel (consumers s ! i)
     \<and> (\<exists>job rest. items (job_queue s) = job # rest
          \<and> s' = (set_consumer i ((consumers s ! i)\<lparr>cpc := CFetch job\<rparr>) s)
                   \<lparr>job_queue := (job_queue s)\<lparr>items := rest\<rparr>\<rparr>)"
  using assms
  by (cases "items (job_queue s)")
     (simp_all add: consumer_get_def get_nowait_def split: if_splits)

lemma acknowledge_cases:
  "(unfinished_tasks (job_queue s) = 0
      \<and> acknowledge i job s
          = set_consumer i ((consumers s ! i)\<lparr>cpc := CRaised ValueError (Some job)\<rparr>) s)
   \<or> (0 < unfinished_tasks (job_queue s)
      \<and> acknowledge i job s
          = (set_consumer i ((consumers s ! i)\<lparr>cpc := CGet\<rparr>) s)
              \<lparr>job_queue := (job_queue s)\<lparr>unfinished_tasks := unfinished_tasks (job_queue s) - 1\<rparr>,
               run_pc := (if unfinished_tasks (job_queue s) = 1 \<and> run_pc s = RJoin
                          then RJoinWoken else run_pc s)\<rparr>)"
  by (cases "unfinished_tasks (job_queue s) = 0")
     (simp_all add: acknowledge_def task_done_def)

lemma consumer_fetched_cases:
  assumes "consumer_fetched i visited extracted s = Some s'"
  shows "i < length (consumers s) \<and> \<not> ccancel (consumers s ! i)
     \<and> (\<exists>job. cpc (consumers s ! i) = CFetch job
        \<and> ((\<exists>e. job_details_collector visited (\<lambda>_. extracted) job = Raises e
               \<and> s' = set_consumer i ((consumers s ! i)\<lparr>cpc := CRaised e (Some job)\<rparr>) s)
           \<or> (job_details_collector visited (\<lambda>_. extracted) job = Returns None
               \<and> s' = acknowledge i job s)
           \<or> (\<exists>full_job. job_details_collector visited (\<lambda>_. extracted) job
                              = Returns (Some full_job)
               \<and> s' = set_consumer i ((consumers s ! i)\<lparr>cpc := CIndex full_job\<rparr>) s)))"
proof (cases "cpc (consumers s ! i)")
  case (CFetch job)
  show ?thesis
  proof (cases "job_details_collector visited (\<lambda>_. extracted) job")
    case (Raises e)
    with CFetch assms show ?thesis by (simp add: consumer_fetched_def split: if_splits)
  next
    case (Returns r)
    with CFetch assms show ?thesis
      by (cases r) (simp_all add: consumer_fetched_def split: if_splits)
  qed
qed (use assms in \<open>simp_all add: consumer_fetched_def split: if_splits\<close>)

lemma consumer_indexed_cases:
  assumes "consumer_indexed i indexed s = Some s'"
  shows "i < length (consumers s) \<and> \<not> ccancel (consumers s ! i)
     \<and> (\<exists>job. cpc (consumers s ! i) = CIndex job
        \<and> ((\<exists>e. indexed = Raises e
               \<and> s' = set_consumer i ((consumers s ! i)\<lparr>cpc := CRaised e (Some job)\<rparr>) s)
           \<or> (indexed = Returns () \<and> s' = acknowledge i job s)))"
proof (cases "cpc (consumers s ! i)")
  case (CIndex job)
  with assms show ?thesis
    by (cases indexed) (simp_all add: consumer_indexed_def split: if_splits)
qed (use assms in \<open>simp_all add: consumer_indexed_def split: if_splits\<close>)

lemma deliver_cases:
  assumes "deliver t s = Some s'"
  shows "(t = Producer \<and> (\<exists>p. producer s = Some p \<and> pcancel p \<and> \<not> producer_done p
            \<and> s' = s\<lparr>producer := Some (p\<lparr>ppc := PCancelled\<rparr>)\<rparr>))
       \<or> (\<exists>i. t = Consumer i \<and> i < length (consumers s) \<and> ccancel (consumers s ! i)
            \<and> \<not> consumer_done (consumers s ! i)
            \<and> s' = set_consumer i
                     ((consumers s ! i)\<lparr>cpc := CCancelled (held (consumers s ! i))\<rparr>) s)"
proof (cases t)
  case Producer
  with assms show ?thesis
    by (cases "producer s") (simp_all add: deliver_def split: if_splits)
next
  case (Consumer i)
  with assms show ?thesis by (simp add: deliver_def split: if_splits)
qed

section \<open>The counter of the queue and the drain\<close>

lemma cancel_task_cpc [simp]:
  "map cpc (consumers (cancel_task t s)) = map cpc (consumers s)"
  by (cases t) (auto simp: cancel_task_def log_def cancel_consumer_def map_update list_update_same_conv)

lemma cancel_task_cworker [simp]:
  "map cworker (consumers (cancel_task t s)) = map cworker (consumers s)"
  by (cases t) (auto simp: cancel_task_def log_def cancel_consumer_def map_update list_update_same_conv)

lemma cancel_each_frame [simp]:
  "workers (cancel_each ts s) = workers s"
  "worker_pool (cancel_each ts s) = worker_pool s"
  "browser (cancel_each ts s) = browser s"
  "job_queue (cancel_each ts s) = job_queue s"
  "tasks (cancel_each ts s) = tasks s"
  "run_pc (cancel_each ts s) = run_pc s"
  "conccurency_lvl (cancel_each ts s) = conccurency_lvl s"
  "length (consumers (cancel_each ts s)) = length (consumers s)"
  "map cpc (consumers (cancel_each ts s)) = map cpc (consumers s)"
  "map cworker (consumers (cancel_each ts s)) = map cworker (consumers s)"
  by (induction ts arbitrary: s; simp)+

lemma cancel_each_producer:
  "Producer \<notin> set ts \<Longrightarrow> producer (cancel_each ts s) = producer s"
  by (induction ts arbitrary: s) (auto simp: cancel_task_def log_def split: task_id.splits)

lemma cancel_each_consumers_producer [simp]:
  "producer (cancel_each (map Consumer ns) s) = producer s"
  by (rule cancel_each_producer) auto

lemma outstanding_cpc: "outstanding c = (case cpc c of CFetch _ \<Rightarrow> 1 | CIndex _ \<Rightarrow> 1
   | CRaised _ (Some _) \<Rightarrow> 1 | CCancelled (Some _) \<Rightarrow> 1 | _ \<Rightarrow> 0)"
  by (simp add: outstanding_def held_def split: cpc.splits option.splits)

lemma map_outstanding:
  assumes a: "map cpc cs = map cpc cs'"
  shows "map outstanding cs = map outstanding cs'"
proof -
  let ?f = "\<lambda>pc. case pc of CFetch _ \<Rightarrow> (1::nat) | CIndex _ \<Rightarrow> 1
   | CRaised _ (Some _) \<Rightarrow> 1 | CCancelled (Some _) \<Rightarrow> 1 | _ \<Rightarrow> 0"
  have "map outstanding cs = map ?f (map cpc cs)"
    by (simp add: outstanding_cpc comp_def)
  also have "\<dots> = map ?f (map cpc cs')" by (simp only: a)
  also have "\<dots> = map outstanding cs'"  by (simp add: outstanding_cpc comp_def)
  finally show ?thesis .
qed

lemma cancel_consumers_frame [simp]:
  "job_queue (cancel_consumers s) = job_queue s"
  "workers (cancel_consumers s) = workers s"
  "worker_pool (cancel_consumers s) = worker_pool s"
  "tasks (cancel_consumers s) = tasks s"
  "run_pc (cancel_consumers s) = RDone"
  "producer (cancel_consumers s) = producer s"
  "length (consumers (cancel_consumers s)) = length (consumers s)"
  "conccurency_lvl (cancel_consumers s) = conccurency_lvl s"
  "browser (cancel_consumers s) = browser s"
  "map cpc (consumers (cancel_consumers s)) = map cpc (consumers s)"
  "map cworker (consumers (cancel_consumers s)) = map cworker (consumers s)"
  by (simp_all add: cancel_consumers_def)

lemma in_flight_cancel_consumers [simp]: "in_flight (cancel_consumers s) = in_flight s"
  unfolding in_flight_def by (rule arg_cong[where f = sum_list], rule map_outstanding) simp

lemma outstanding_le:
  "i < length cs \<Longrightarrow> outstanding (cs ! i) \<le> sum_list (map outstanding cs)"
  using elem_le_sum_list[of i "map outstanding cs"] by simp

lemma sum_outstanding_update:
  assumes "i < length cs"
  shows "sum_list (map outstanding (cs[i := c]))
     = sum_list (map outstanding cs) + outstanding c - outstanding (cs ! i)"
  using assms by (simp add: map_update sum_list_update)

lemma in_flight_frame [simp]:
  "in_flight (s\<lparr>run_pc := r\<rparr>) = in_flight s"
  "in_flight (s\<lparr>job_queue := q\<rparr>) = in_flight s"
  "in_flight (s\<lparr>producer := p\<rparr>) = in_flight s"
  "in_flight (s\<lparr>workers := ws\<rparr>) = in_flight s"
  "in_flight (s\<lparr>worker_pool := wp\<rparr>) = in_flight s"
  "in_flight (s\<lparr>tasks := ts\<rparr>) = in_flight s"
  "in_flight (s\<lparr>consumers := cs\<rparr>) = sum_list (map outstanding cs)"
  by (simp_all add: in_flight_def)

lemma outstanding_simps [simp]:
  "outstanding (c\<lparr>cpc := CGet\<rparr>) = 0"
  "outstanding (c\<lparr>cpc := CNew\<rparr>) = 0"
  "outstanding (c\<lparr>cpc := CFetch j\<rparr>) = 1"
  "outstanding (c\<lparr>cpc := CIndex j\<rparr>) = 1"
  "outstanding (c\<lparr>cpc := CRaised e None\<rparr>) = 0"
  "outstanding (c\<lparr>cpc := CRaised e (Some j)\<rparr>) = 1"
  "outstanding (c\<lparr>cpc := CGet, cworker := w\<rparr>) = 0"
  "outstanding new_consumer = 0"
  by (simp_all add: outstanding_def held_def new_consumer_def)

lemma outstanding_of_pc:
  "cpc c = CNew \<Longrightarrow> outstanding c = 0"
  "cpc c = CGet \<Longrightarrow> outstanding c = 0"
  "cpc c = CFetch j \<Longrightarrow> outstanding c = 1"
  "cpc c = CIndex j \<Longrightarrow> outstanding c = 1"
  by (simp_all add: outstanding_def held_def)

lemma outstanding_held [simp]: "outstanding (c\<lparr>cpc := CCancelled (held c)\<rparr>) = outstanding c"
  by (simp add: outstanding_def held_def split: cpc.splits option.splits)

lemma in_flight_set_consumer:
  "i < length (consumers s) \<Longrightarrow>
   in_flight (set_consumer i c s) = in_flight s + outstanding c - outstanding (consumers s ! i)"
  by (simp add: set_consumer_def sum_outstanding_update) (simp add: in_flight_def)

lemma set_consumer_frame [simp]:
  "job_queue (set_consumer i c s) = job_queue s"
  "run_pc (set_consumer i c s) = run_pc s"
  "producer (set_consumer i c s) = producer s"
  "workers (set_consumer i c s) = workers s"
  "worker_pool (set_consumer i c s) = worker_pool s"
  "tasks (set_consumer i c s) = tasks s"
  "conccurency_lvl (set_consumer i c s) = conccurency_lvl s"
  "browser (set_consumer i c s) = browser s"
  "consumers (set_consumer i c s) = (consumers s)[i := c]"
  by (simp_all add: set_consumer_def)

lemma add_worker_frame [simp]:
  "job_queue (add_worker w s) = job_queue s"
  "run_pc (add_worker w s) = run_pc s"
  "producer (add_worker w s) = producer s"
  "consumers (add_worker w s) = consumers s"
  "tasks (add_worker w s) = tasks s"
  "conccurency_lvl (add_worker w s) = conccurency_lvl s"
  "browser (add_worker w s) = browser s"
  "workers (add_worker w s) = workers s @ [w]"
  "worker_pool (add_worker w s) = worker_pool s @ [length (workers s)]"
  "in_flight (add_worker w s) = in_flight s"
  by (simp_all add: add_worker_def in_flight_def)

lemma drain_inv_frame:
  assumes "drain_inv s"
    and "job_queue s' = job_queue s" and "run_pc s' = run_pc s"
    and "producer s' = producer s" and "in_flight s' = in_flight s"
    and "consumers s = [] \<Longrightarrow> consumers s' = []"
  shows "drain_inv s'"
  using assms unfolding drain_inv_def counted_def join_inv_def joined_def by auto

lemma drain_add_worker:
  assumes "drain_inv s" shows "drain_inv (add_worker w s)"
  by (rule drain_inv_frame[OF assms]) simp_all

lemma drain_set_consumer:
  assumes "drain_inv s" "i < length (consumers s)"
    and "outstanding c = outstanding (consumers s ! i)"
  shows "drain_inv (set_consumer i c s)"
proof -
  have "in_flight (set_consumer i c s) = in_flight s"
    using in_flight_set_consumer[OF assms(2), of c] assms(3) by simp
  then show ?thesis
    by (rule_tac drain_inv_frame[OF assms(1)]) (use assms(2) in auto)
qed

lemma drain_update_producer:
  assumes "drain_inv s" "producer s = Some p" "ppc p \<noteq> PDone"
  shows "drain_inv (s\<lparr>producer := Some p'\<rparr>)"
  using assms by (auto simp: drain_inv_def counted_def join_inv_def joined_def)

lemma join_inv_not_done:
  assumes "drain_inv s" "producer s = Some p" "ppc p \<noteq> PDone"
  shows "run_pc s \<noteq> RJoin" "run_pc s \<noteq> RJoinWoken" "run_pc s \<noteq> RDone"
  using assms by (auto simp: drain_inv_def join_inv_def joined_def)

lemma drain_put_nowait:
  assumes "drain_inv s" "producer s = Some p" "ppc p \<noteq> PDone"
  shows "drain_inv (s\<lparr>job_queue := put_nowait job (job_queue s)\<rparr>)"
  using assms join_inv_not_done[OF assms]
  by (simp add: drain_inv_def counted_def join_inv_def joined_def put_nowait_def)

lemma drain_run_spawn:
  assumes "drain_inv s" "run_spawn s = Some s'" shows "drain_inv s'"
proof -
  note c = run_spawn_cases[OF assms(2)]
  from assms(1) c have "consumers s = []" "counted s" by (auto simp: drain_inv_def)
  then show ?thesis
    by (subst conjunct2[OF c])
       (simp add: drain_inv_def counted_def join_inv_def joined_def in_flight_def)
qed

lemma drain_consumer_start:
  assumes "drain_inv s" "consumer_start i io s = Some s'" shows "drain_inv s'"
proof -
  note c = consumer_start_cases[OF assms(2)]
  from c have i: "i < length (consumers s)" and pc: "cpc (consumers s ! i) = CNew" by auto
  have o: "outstanding (consumers s ! i) = 0" using pc by (simp add: outstanding_of_pc)
  from c consider
      (raised) e where "s' = set_consumer i ((consumers s ! i)\<lparr>cpc := CRaised e None\<rparr>) s"
    | (built) w where "s' = set_consumer i
         ((consumers s ! i)\<lparr>cpc := CGet, cworker := Some (length (workers s))\<rparr>) (add_worker w s)"
    by blast
  then show ?thesis
  proof cases
    case raised
    show ?thesis unfolding raised
      by (rule drain_set_consumer[OF assms(1) i]) (simp add: o)
  next
    case built
    show ?thesis unfolding built
      by (rule drain_set_consumer[OF drain_add_worker[OF assms(1)]]) (simp_all add: i o)
  qed
qed

lemma drain_deliver:
  assumes "drain_inv s" "deliver t s = Some s'" shows "drain_inv s'"
proof -
  from deliver_cases[OF assms(2)] consider
      (prod) p where "producer s = Some p" "\<not> producer_done p"
        "s' = s\<lparr>producer := Some (p\<lparr>ppc := PCancelled\<rparr>)\<rparr>"
    | (cons) i where "i < length (consumers s)"
        "s' = set_consumer i ((consumers s ! i)\<lparr>cpc := CCancelled (held (consumers s ! i))\<rparr>) s"
    by blast
  then show ?thesis
  proof cases
    case prod
    from prod(2) have "ppc p \<noteq> PDone" by (auto simp: producer_done_def)
    from drain_update_producer[OF assms(1) prod(1) this] show ?thesis by (simp add: prod(3))
  next
    case cons
    show ?thesis unfolding cons(2)
      by (rule drain_set_consumer[OF assms(1) cons(1)]) simp
  qed
qed

lemma drain_producer_start:
  assumes "drain_inv s" "producer_start io s = Some s'" shows "drain_inv s'"
proof -
  from producer_start_cases[OF assms(2)] obtain p where p: "producer s = Some p" "ppc p = PNew"
    and c: "(\<exists>e. s' = s\<lparr>producer := Some (p\<lparr>ppc := PRaised e\<rparr>)\<rparr>)
        \<or> (\<exists>w. s' = (add_worker w s)\<lparr>producer := Some (p\<lparr>ppc := PFeed,
                                            pworker := Some (length (workers s))\<rparr>)\<rparr>)"
    by blast
  from p have nd: "ppc p \<noteq> PDone" by simp
  from c show ?thesis
  proof (elim disjE exE)
    fix e assume "s' = s\<lparr>producer := Some (p\<lparr>ppc := PRaised e\<rparr>)\<rparr>"
    with drain_update_producer[OF assms(1) p(1) nd] show ?thesis by simp
  next
    fix w assume s': "s' = (add_worker w s)\<lparr>producer := Some (p\<lparr>ppc := PFeed,
                                            pworker := Some (length (workers s))\<rparr>)\<rparr>"
    have "producer (add_worker w s) = Some p" using p by simp
    from drain_update_producer[OF drain_add_worker[OF assms(1)] this nd] show ?thesis
      by (simp add: s')
  qed
qed

lemma drain_producer_next:
  assumes "drain_inv s" "producer_next fed s = Some s'" shows "drain_inv s'"
proof -
  from producer_next_cases[OF assms(2)] obtain p where p: "producer s = Some p" "ppc p = PFeed"
    and c: "(\<exists>x. s' = s\<lparr>producer := Some (p\<lparr>ppc := x\<rparr>)\<rparr>)
        \<or> (\<exists>job. s' = s\<lparr>job_queue := put_nowait job (job_queue s)\<rparr>)"
    by blast
  from p have nd: "ppc p \<noteq> PDone" by simp
  from c show ?thesis
  proof (elim disjE exE)
    fix x assume "s' = s\<lparr>producer := Some (p\<lparr>ppc := x\<rparr>)\<rparr>"
    with drain_update_producer[OF assms(1) p(1) nd] show ?thesis by simp
  next
    fix job assume "s' = s\<lparr>job_queue := put_nowait job (job_queue s)\<rparr>"
    with drain_put_nowait[OF assms(1) p(1) nd] show ?thesis by simp
  qed
qed

lemma drain_producer_put:
  assumes "drain_inv s" "producer_put s = Some s'" shows "drain_inv s'"
proof -
  from producer_put_cases[OF assms(2)] obtain p job where p: "producer s = Some p" "ppc p = PPut job"
    and s': "s' = s\<lparr>job_queue := put_nowait job (job_queue s),
              producer := Some (p\<lparr>ppc := PFeed\<rparr>)\<rparr>"
    by blast
  from p have nd: "ppc p \<noteq> PDone" by simp
  have 1: "drain_inv (s\<lparr>job_queue := put_nowait job (job_queue s)\<rparr>)"
    by (rule drain_put_nowait[OF assms(1) p(1) nd])
  have 2: "producer (s\<lparr>job_queue := put_nowait job (job_queue s)\<rparr>) = Some p" using p by simp
  from drain_update_producer[OF 1 2 nd] show ?thesis by (simp add: s')
qed

lemma drain_cancel_consumers:
  assumes "drain_inv s" "unfinished_tasks (job_queue s) = 0" "producer s = Some p" "ppc p = PDone"
    "run_pc s \<noteq> RInit"
  shows "drain_inv (cancel_consumers s)"
  using assms by (simp add: drain_inv_def counted_def join_inv_def joined_def)

lemma drain_run_resume:
  assumes "drain_inv s" "run_resume s = Some s'" shows "drain_inv s'"
proof -
  from run_resume_cases[OF assms(2)] consider
      (wait) p where "run_pc s = RAwaitProducer" "producer s = Some p" "ppc p = PDone"
        "s' = s\<lparr>run_pc := RJoin\<rparr>"
    | (now) p where "run_pc s = RAwaitProducer" "producer s = Some p" "ppc p = PDone"
        "unfinished_tasks (job_queue s) = 0" "s' = cancel_consumers s"
    | (raised) e where "run_pc s = RAwaitProducer" "s' = s\<lparr>run_pc := RRaised e\<rparr>"
    | (woken) "run_pc s = RJoinWoken" "s' = cancel_consumers s"
    by blast
  then show ?thesis
  proof cases
    case wait
    with assms(1) show ?thesis by (simp add: drain_inv_def counted_def join_inv_def joined_def)
  next
    case now
    with assms(1) show ?thesis by (simp add: drain_cancel_consumers)
  next
    case raised
    with assms(1) show ?thesis by (simp add: drain_inv_def counted_def join_inv_def joined_def)
  next
    case woken
    with assms(1) obtain p where "producer s = Some p" "ppc p = PDone"
      "unfinished_tasks (job_queue s) = 0"
      by (auto simp: drain_inv_def join_inv_def joined_def)
    with woken assms(1) show ?thesis by (simp add: drain_cancel_consumers)
  qed
qed

lemma held_positive:
  assumes "drain_inv s" "i < length (consumers s)" "outstanding (consumers s ! i) = 1"
  shows "0 < unfinished_tasks (job_queue s)" "\<not> joined s"
proof -
  from outstanding_le[OF assms(2)] assms(3) have "1 \<le> in_flight s" by (simp add: in_flight_def)
  with assms(1) show "0 < unfinished_tasks (job_queue s)" by (simp add: drain_inv_def counted_def)
  with assms(1) show "\<not> joined s" by (auto simp: drain_inv_def join_inv_def)
qed

lemma drain_consumer_get:
  assumes "drain_inv s" "consumer_get i s = Some s'" shows "drain_inv s'"
proof -
  from consumer_get_cases[OF assms(2)] obtain job rest where
    i: "i < length (consumers s)" and pc: "cpc (consumers s ! i) = CGet"
    and it: "items (job_queue s) = job # rest"
    and s': "s' = (set_consumer i ((consumers s ! i)\<lparr>cpc := CFetch job\<rparr>) s)
                   \<lparr>job_queue := (job_queue s)\<lparr>items := rest\<rparr>\<rparr>"
    by blast
  have o: "outstanding (consumers s ! i) = 0" using pc by (simp add: outstanding_of_pc)
  have f: "in_flight s' = in_flight s + 1"
    using in_flight_set_consumer[OF i, of "(consumers s ! i)\<lparr>cpc := CFetch job\<rparr>"] o
    by (simp add: s')
  from assms(1) it have "0 < unfinished_tasks (job_queue s)"
    by (simp add: drain_inv_def counted_def)
  with assms(1) have nj: "\<not> joined s" by (auto simp: drain_inv_def join_inv_def)
  from assms(1) f it nj i show ?thesis
    unfolding drain_inv_def counted_def join_inv_def joined_def
    by (auto simp: s')
qed

lemma drain_raise_held:
  assumes "drain_inv s" "i < length (consumers s)" "outstanding (consumers s ! i) = 1"
  shows "drain_inv (set_consumer i ((consumers s ! i)\<lparr>cpc := CRaised e (Some job)\<rparr>) s)"
  by (rule drain_set_consumer[OF assms(1,2)]) (simp add: assms(3))

lemma drain_acknowledge:
  assumes "drain_inv s" "i < length (consumers s)" "outstanding (consumers s ! i) = 1"
  shows "drain_inv (acknowledge i job s)"
proof -
  note pos = held_positive[OF assms]
  from acknowledge_cases[of s i job] pos(1) have
    a: "acknowledge i job s
          = (set_consumer i ((consumers s ! i)\<lparr>cpc := CGet\<rparr>) s)
              \<lparr>job_queue := (job_queue s)\<lparr>unfinished_tasks := unfinished_tasks (job_queue s) - 1\<rparr>,
               run_pc := (if unfinished_tasks (job_queue s) = 1 \<and> run_pc s = RJoin
                          then RJoinWoken else run_pc s)\<rparr>"
    by auto
  have f: "in_flight (acknowledge i job s) + 1 = in_flight s"
    using in_flight_set_consumer[OF assms(2), of "(consumers s ! i)\<lparr>cpc := CGet\<rparr>"] assms(3)
      outstanding_le[OF assms(2)]
    by (simp add: a in_flight_def)
  have q: "job_queue (acknowledge i job s)
             = (job_queue s)\<lparr>unfinished_tasks := unfinished_tasks (job_queue s) - 1\<rparr>"
    by (simp add: a)
  have "unfinished_tasks (job_queue s) = length (items (job_queue s)) + in_flight s"
    using assms(1) by (simp add: drain_inv_def counted_def)
  with f have cnt: "counted (acknowledge i job s)"
    unfolding counted_def q by simp
  have j: "join_inv (acknowledge i job s)"
    using assms(1) pos by (auto simp: a drain_inv_def join_inv_def joined_def)
  have "run_pc s \<noteq> RInit" using assms(1,2) by (auto simp: drain_inv_def)
  then have "run_pc (acknowledge i job s) \<noteq> RInit" by (simp add: a)
  with cnt j show ?thesis by (simp add: drain_inv_def)
qed

lemma drain_consumer_fetched:
  assumes "drain_inv s" "consumer_fetched i visited extracted s = Some s'" shows "drain_inv s'"
proof -
  from consumer_fetched_cases[OF assms(2)] obtain job where
    i: "i < length (consumers s)" and pc: "cpc (consumers s ! i) = CFetch job"
    and c: "(\<exists>e. s' = set_consumer i ((consumers s ! i)\<lparr>cpc := CRaised e (Some job)\<rparr>) s)
           \<or> s' = acknowledge i job s
           \<or> (\<exists>full_job. s' = set_consumer i ((consumers s ! i)\<lparr>cpc := CIndex full_job\<rparr>) s)"
    by blast
  have o: "outstanding (consumers s ! i) = 1" using pc by (simp add: outstanding_of_pc)
  from c show ?thesis
  proof (elim disjE exE)
    fix e assume "s' = set_consumer i ((consumers s ! i)\<lparr>cpc := CRaised e (Some job)\<rparr>) s"
    with drain_raise_held[OF assms(1) i o] show ?thesis by simp
  next
    assume "s' = acknowledge i job s"
    with drain_acknowledge[OF assms(1) i o] show ?thesis by simp
  next
    fix full_job assume s': "s' = set_consumer i ((consumers s ! i)\<lparr>cpc := CIndex full_job\<rparr>) s"
    show ?thesis unfolding s' by (rule drain_set_consumer[OF assms(1) i]) (simp add: o)
  qed
qed

lemma drain_consumer_indexed:
  assumes "drain_inv s" "consumer_indexed i indexed s = Some s'" shows "drain_inv s'"
proof -
  from consumer_indexed_cases[OF assms(2)] obtain job where
    i: "i < length (consumers s)" and pc: "cpc (consumers s ! i) = CIndex job"
    and c: "(\<exists>e. s' = set_consumer i ((consumers s ! i)\<lparr>cpc := CRaised e (Some job)\<rparr>) s)
           \<or> s' = acknowledge i job s"
    by blast
  have o: "outstanding (consumers s ! i) = 1" using pc by (simp add: outstanding_of_pc)
  from c show ?thesis
  proof (elim disjE exE)
    fix e assume "s' = set_consumer i ((consumers s ! i)\<lparr>cpc := CRaised e (Some job)\<rparr>) s"
    with drain_raise_held[OF assms(1) i o] show ?thesis by simp
  next
    assume "s' = acknowledge i job s"
    with drain_acknowledge[OF assms(1) i o] show ?thesis by simp
  qed
qed

lemma drain_step:
  assumes "drain_inv s" "step l s = Some s'" shows "drain_inv s'"
proof (cases l)
  case RunSpawn
  with assms(2) have "run_spawn s = Some s'" by simp
  then show ?thesis by (rule drain_run_spawn[OF assms(1)])
next
  case RunResume
  with assms(2) have "run_resume s = Some s'" by simp
  then show ?thesis by (rule drain_run_resume[OF assms(1)])
next
  case (ProducerStart io)
  with assms(2) have "producer_start io s = Some s'" by simp
  then show ?thesis by (rule drain_producer_start[OF assms(1)])
next
  case (ProducerNext fed)
  with assms(2) have "producer_next fed s = Some s'" by simp
  then show ?thesis by (rule drain_producer_next[OF assms(1)])
next
  case ProducerPut
  with assms(2) have "producer_put s = Some s'" by simp
  then show ?thesis by (rule drain_producer_put[OF assms(1)])
next
  case (ConsumerStart i io)
  with assms(2) have "consumer_start i io s = Some s'" by simp
  then show ?thesis by (rule drain_consumer_start[OF assms(1)])
next
  case (ConsumerGet i)
  with assms(2) have "consumer_get i s = Some s'" by simp
  then show ?thesis by (rule drain_consumer_get[OF assms(1)])
next
  case (ConsumerFetched i visited extracted)
  with assms(2) have "consumer_fetched i visited extracted s = Some s'" by simp
  then show ?thesis by (rule drain_consumer_fetched[OF assms(1)])
next
  case (ConsumerIndexed i indexed)
  with assms(2) have "consumer_indexed i indexed s = Some s'" by simp
  then show ?thesis by (rule drain_consumer_indexed[OF assms(1)])
next
  case (Deliver t)
  with assms(2) have "deliver t s = Some s'" by simp
  then show ?thesis by (rule drain_deliver[OF assms(1)])
qed

lemma drain_exec:
  "exec ls s = Some s' \<Longrightarrow> drain_inv s \<Longrightarrow> drain_inv s'"
proof (induction ls arbitrary: s)
  case Nil
  then show ?case by simp
next
  case (Cons l ls)
  from Cons.prems(1) obtain s1 where 1: "step l s = Some s1" and 2: "exec ls s1 = Some s'"
    by (cases "step l s") simp_all
  from Cons.IH[OF 2 drain_step[OF Cons.prems(2) 1]] show ?case .
qed

lemma drain_entered: "drain_inv (entered q n h b)"
  by (simp add: entered_def aenter_def log_def JobIndexing_init_def Queue_init_def
        drain_inv_def counted_def join_inv_def joined_def in_flight_def)

lemma cancel_task_done_same:
  assumes "i < length (consumers s)" "consumer_done (consumers s ! i)"
  shows "consumers (cancel_task t s) ! i = consumers s ! i"
  using assms
  by (cases t) (auto simp: cancel_task_def log_def cancel_consumer_def nth_list_update)

lemma cancel_each_done_same:
  "i < length (consumers s) \<Longrightarrow> consumer_done (consumers s ! i)
   \<Longrightarrow> consumers (cancel_each ts s) ! i = consumers s ! i"
proof (induction ts arbitrary: s)
  case Nil
  then show ?case by simp
next
  case (Cons t ts)
  have 1: "i < length (consumers (cancel_task t s))" using Cons.prems by simp
  have 2: "consumers (cancel_task t s) ! i = consumers s ! i"
    by (rule cancel_task_done_same[OF Cons.prems])
  from Cons.IH[OF 1] 2 Cons.prems show ?case by simp
qed

lemma cancel_consumers_done_same:
  "i < length (consumers s) \<Longrightarrow> consumer_done (consumers s ! i)
   \<Longrightarrow> consumers (cancel_consumers s) ! i = consumers s ! i"
  by (simp add: cancel_consumers_def cancel_each_done_same)

lemma acknowledge_other:
  "j \<noteq> i \<Longrightarrow> consumers (acknowledge i job s) ! j = consumers s ! j"
  using acknowledge_cases[of s i job] by auto

lemma acknowledge_length [simp]:
  "length (consumers (acknowledge i job s)) = length (consumers s)"
  using acknowledge_cases[of s i job] by auto

lemma acknowledge_not_init:
  "run_pc s \<noteq> RInit \<Longrightarrow> run_pc (acknowledge i job s) \<noteq> RInit"
  using acknowledge_cases[of s i job] by (auto split: if_splits)

lemma step_length_consumers:
  assumes "step l s = Some s'" "run_pc s \<noteq> RInit"
  shows "length (consumers s') = length (consumers s)"
proof (cases l)
  case RunSpawn
  with assms run_spawn_cases[of s s'] show ?thesis by simp
next
  case RunResume
  with assms(1) run_resume_cases[of s s'] show ?thesis by auto
next
  case (ProducerStart io)
  with assms(1) producer_start_cases[of io s s'] show ?thesis by auto
next
  case (ProducerNext fed)
  with assms(1) producer_next_cases[of fed s s'] show ?thesis by auto
next
  case ProducerPut
  with assms(1) producer_put_cases[of s s'] show ?thesis by auto
next
  case (ConsumerStart i io)
  with assms(1) consumer_start_cases[of i io s s'] show ?thesis by auto
next
  case (ConsumerGet i)
  with assms(1) consumer_get_cases[of i s s'] show ?thesis by auto
next
  case (ConsumerFetched i visited extracted)
  with assms(1) consumer_fetched_cases[of i visited extracted s s'] show ?thesis by auto
next
  case (ConsumerIndexed i indexed)
  with assms(1) consumer_indexed_cases[of i indexed s s'] show ?thesis by auto
next
  case (Deliver t)
  with assms(1) deliver_cases[of t s s'] show ?thesis by auto
qed

lemma step_done_same:
  assumes "step l s = Some s'" "i < length (consumers s)" "consumer_done (consumers s ! i)"
    "run_pc s \<noteq> RInit"
  shows "consumers s' ! i = consumers s ! i"
proof -
  have nn: "cpc (consumers s ! i) \<noteq> CNew" "cpc (consumers s ! i) \<noteq> CGet"
    "\<And>j. cpc (consumers s ! i) \<noteq> CFetch j" "\<And>j. cpc (consumers s ! i) \<noteq> CIndex j"
    using assms(3) by (auto simp: consumer_done_def)
  show ?thesis
  proof (cases l)
    case RunSpawn
    with assms run_spawn_cases[of s s'] show ?thesis by simp
  next
    case RunResume
    with assms(1) run_resume_cases[of s s'] cancel_consumers_done_same[OF assms(2,3)]
    show ?thesis by auto
  next
    case (ProducerStart io)
    with assms(1) producer_start_cases[of io s s'] show ?thesis by auto
  next
    case (ProducerNext fed)
    with assms(1) producer_next_cases[of fed s s'] show ?thesis by auto
  next
    case ProducerPut
    with assms(1) producer_put_cases[of s s'] show ?thesis by auto
  next
    case (ConsumerStart k io)
    with assms(1) consumer_start_cases[of k io s s'] nn show ?thesis
      by (cases "k = i") auto
  next
    case (ConsumerGet k)
    with assms(1) consumer_get_cases[of k s s'] nn show ?thesis
      by (cases "k = i") auto
  next
    case (ConsumerFetched k visited extracted)
    with assms(1) consumer_fetched_cases[of k visited extracted s s'] nn show ?thesis
      by (cases "k = i") (auto simp: acknowledge_other)
  next
    case (ConsumerIndexed k indexed)
    with assms(1) consumer_indexed_cases[of k indexed s s'] nn show ?thesis
      by (cases "k = i") (auto simp: acknowledge_other)
  next
    case (Deliver t)
    with assms(1) deliver_cases[of t s s'] assms(3) show ?thesis
      by (auto simp: nth_list_update split: if_splits)
  qed
qed

lemma step_not_init:
  assumes "step l s = Some s'" "run_pc s \<noteq> RInit" shows "run_pc s' \<noteq> RInit"
proof (cases l)
  case RunSpawn
  with assms run_spawn_cases[of s s'] show ?thesis by simp
next
  case RunResume
  with assms(1) run_resume_cases[of s s'] show ?thesis by auto
next
  case (ProducerStart io)
  with assms producer_start_cases[of io s s'] show ?thesis by auto
next
  case (ProducerNext fed)
  with assms producer_next_cases[of fed s s'] show ?thesis by auto
next
  case ProducerPut
  with assms producer_put_cases[of s s'] show ?thesis by auto
next
  case (ConsumerStart i io)
  with assms consumer_start_cases[of i io s s'] show ?thesis by auto
next
  case (ConsumerGet i)
  with assms consumer_get_cases[of i s s'] show ?thesis by auto
next
  case (ConsumerFetched i visited extracted)
  with assms consumer_fetched_cases[of i visited extracted s s']
  show ?thesis by (auto simp: acknowledge_not_init)
next
  case (ConsumerIndexed i indexed)
  with assms consumer_indexed_cases[of i indexed s s']
  show ?thesis by (auto simp: acknowledge_not_init)
next
  case (Deliver t)
  with assms deliver_cases[of t s s'] show ?thesis by auto
qed

lemma exec_done_same:
  "exec ls s = Some s' \<Longrightarrow> i < length (consumers s) \<Longrightarrow> consumer_done (consumers s ! i)
   \<Longrightarrow> run_pc s \<noteq> RInit
   \<Longrightarrow> i < length (consumers s') \<and> consumers s' ! i = consumers s ! i"
proof (induction ls arbitrary: s)
  case Nil
  then show ?case by simp
next
  case (Cons l ls)
  from Cons.prems(1) obtain s1 where 1: "step l s = Some s1" and 2: "exec ls s1 = Some s'"
    by (cases "step l s") simp_all
  have a: "consumers s1 ! i = consumers s ! i"
    by (rule step_done_same[OF 1 Cons.prems(2,3,4)])
  have b: "i < length (consumers s1)"
    using step_length_consumers[OF 1 Cons.prems(4)] Cons.prems(2) by simp
  have c: "run_pc s1 \<noteq> RInit" by (rule step_not_init[OF 1 Cons.prems(4)])
  from Cons.IH[OF 2 b _ c] a Cons.prems(3) show ?case by simp
qed

lemma acknowledge_unfinished:
  "unfinished_tasks (job_queue (set_consumer i c s)) = unfinished_tasks (job_queue s)"
  by simp

lemma step_unfinished:
  assumes "step l s = Some s'"
    "unfinished_tasks (job_queue s') < unfinished_tasks (job_queue s)"
  shows "\<exists>k job. (\<exists>v x. l = ConsumerFetched k v x \<and> cpc (consumers s ! k) = CFetch job
                     \<and> job_details_collector v (\<lambda>_. x) job = Returns None)
              \<or> (l = ConsumerIndexed k (Returns ()) \<and> cpc (consumers s ! k) = CIndex job)"
proof (cases l)
  case RunSpawn
  with assms run_spawn_cases[of s s'] show ?thesis by simp
next
  case RunResume
  with assms run_resume_cases[of s s'] show ?thesis by auto
next
  case (ProducerStart io)
  with assms producer_start_cases[of io s s'] show ?thesis by auto
next
  case (ProducerNext fed)
  with assms producer_next_cases[of fed s s'] show ?thesis by (auto simp: put_nowait_def)
next
  case ProducerPut
  with assms producer_put_cases[of s s'] show ?thesis by (auto simp: put_nowait_def)
next
  case (ConsumerStart i io)
  with assms consumer_start_cases[of i io s s'] show ?thesis by auto
next
  case (ConsumerGet i)
  with assms consumer_get_cases[of i s s'] show ?thesis by auto
next
  case (ConsumerFetched i visited extracted)
  with assms consumer_fetched_cases[of i visited extracted s s'] show ?thesis by auto
next
  case (ConsumerIndexed i indexed)
  with assms consumer_indexed_cases[of i indexed s s'] show ?thesis by auto
next
  case (Deliver t)
  with assms deliver_cases[of t s s'] show ?thesis by auto
qed

lemma raised_held_blocks:
  assumes "drain_inv s" "i < length (consumers s)" "cpc (consumers s ! i) = CRaised e (Some job)"
    "exec ls s = Some s'"
  shows "cpc (consumers s' ! i) = CRaised e (Some job) \<and> 0 < unfinished_tasks (job_queue s')
     \<and> run_pc s' \<noteq> RJoinWoken \<and> run_pc s' \<noteq> RDone"
proof -
  have ni: "run_pc s \<noteq> RInit" using assms(1,2) by (auto simp: drain_inv_def)
  have d: "consumer_done (consumers s ! i)" using assms(3) by (simp add: consumer_done_def)
  from exec_done_same[OF assms(4,2) d ni]
  have i': "i < length (consumers s')" and same: "consumers s' ! i = consumers s ! i" by simp_all
  have o: "outstanding (consumers s' ! i) = 1"
    using same assms(3) by (simp add: outstanding_def held_def)
  note pos = held_positive[OF drain_exec[OF assms(4,1)] i' o]
  with same assms(3) show ?thesis by (simp add: joined_def)
qed

text \<open>
  C10: in the consumer loop an item is acknowledged only by the step in which the fetch
  returned absent, or the step in which indexing returned; when the fetch or the
  indexing raises, the consumer ends holding the item and the queue is untouched; from
  then on the counter of the queue stays positive and \<open>join()\<close> in \<open>run()\<close>
  never returns.
\<close>

theorem C10_unacknowledged_item_blocks_join:
  assumes run: "exec ls (entered q n h b) = Some s"
  shows
   "(i < length (consumers s) \<and> \<not> ccancel (consumers s ! i)
       \<and> cpc (consumers s ! i) = CFetch job
       \<and> job_details_collector visited (\<lambda>_. extracted) job = Raises e \<longrightarrow>
      (\<exists>s'. step (ConsumerFetched i visited extracted) s = Some s'
          \<and> cpc (consumers s' ! i) = CRaised e (Some job) \<and> job_queue s' = job_queue s))
    \<and> (i < length (consumers s) \<and> \<not> ccancel (consumers s ! i)
       \<and> cpc (consumers s ! i) = CIndex job \<longrightarrow>
      (\<exists>s'. step (ConsumerIndexed i (Raises e)) s = Some s'
          \<and> cpc (consumers s' ! i) = CRaised e (Some job) \<and> job_queue s' = job_queue s))
    \<and> (i < length (consumers s) \<and> cpc (consumers s ! i) = CRaised e (Some job)
       \<and> exec ls' s = Some s' \<longrightarrow>
      cpc (consumers s' ! i) = CRaised e (Some job) \<and> 0 < unfinished_tasks (job_queue s')
      \<and> run_pc s' \<noteq> RJoinWoken \<and> run_pc s' \<noteq> RDone)
    \<and> (step l s = Some s'
       \<and> unfinished_tasks (job_queue s') < unfinished_tasks (job_queue s) \<longrightarrow>
      (\<exists>k job. (\<exists>v x. l = ConsumerFetched k v x \<and> cpc (consumers s ! k) = CFetch job
                     \<and> job_details_collector v (\<lambda>_. x) job = Returns None)
              \<or> (l = ConsumerIndexed k (Returns ()) \<and> cpc (consumers s ! k) = CIndex job)))"
proof -
  have 1: "i < length (consumers s) \<and> \<not> ccancel (consumers s ! i)
       \<and> cpc (consumers s ! i) = CFetch job
       \<and> job_details_collector visited (\<lambda>_. extracted) job = Raises e \<longrightarrow>
      (\<exists>s'. step (ConsumerFetched i visited extracted) s = Some s'
          \<and> cpc (consumers s' ! i) = CRaised e (Some job) \<and> job_queue s' = job_queue s)"
    by (simp add: consumer_fetched_def set_consumer_def)
  have 2: "i < length (consumers s) \<and> \<not> ccancel (consumers s ! i)
       \<and> cpc (consumers s ! i) = CIndex job \<longrightarrow>
      (\<exists>s'. step (ConsumerIndexed i (Raises e)) s = Some s'
          \<and> cpc (consumers s' ! i) = CRaised e (Some job) \<and> job_queue s' = job_queue s)"
    by (simp add: consumer_indexed_def set_consumer_def)
  have d: "drain_inv s" by (rule drain_exec[OF run drain_entered])
  have 3: "i < length (consumers s) \<and> cpc (consumers s ! i) = CRaised e (Some job)
       \<and> exec ls' s = Some s' \<longrightarrow>
      cpc (consumers s' ! i) = CRaised e (Some job) \<and> 0 < unfinished_tasks (job_queue s')
      \<and> run_pc s' \<noteq> RJoinWoken \<and> run_pc s' \<noteq> RDone"
    using raised_held_blocks[OF d, of i e job ls' s'] by blast
  have 4: "step l s = Some s'
       \<and> unfinished_tasks (job_queue s') < unfinished_tasks (job_queue s) \<longrightarrow>
      (\<exists>k job. (\<exists>v x. l = ConsumerFetched k v x \<and> cpc (consumers s ! k) = CFetch job
                     \<and> job_details_collector v (\<lambda>_. x) job = Returns None)
              \<or> (l = ConsumerIndexed k (Returns ()) \<and> cpc (consumers s ! k) = CIndex job))"
    using step_unfinished[of l s s'] by blast
  show ?thesis by (rule conjI[OF 1 conjI[OF 2 conjI[OF 3 4]]])
qed

theorem C10_unacknowledged_item_witness:
  "\<exists>s s'. exec [RunSpawn, ProducerStart (io_ok 0), ConsumerStart 0 (io_ok 1),
               ProducerNext (Returns (Some job_a)), ConsumerGet 0,
               ConsumerFetched 0 (Raises (External ''TargetClosedError'')) (Returns (''d'', ''m''))]
            (entered None 1 False (- 1)) = Some s
     \<and> cpc (consumers s ! 0) = CRaised (External ''TargetClosedError'') (Some job_a)
     \<and> exec [ProducerNext (Returns None), RunResume] s = Some s'
     \<and> run_pc s' = RJoin
     \<and> 0 < unfinished_tasks (job_queue s')"
proof -
  let ?ls = "[RunSpawn, ProducerStart (io_ok 0), ConsumerStart 0 (io_ok 1),
               ProducerNext (Returns (Some job_a)), ConsumerGet 0,
               ConsumerFetched 0 (Raises (External ''TargetClosedError'')) (Returns (''d'', ''m''))]"
  let ?ls' = "[ProducerNext (Returns None), RunResume]"
  define s where "s = the (exec ?ls (entered None 1 False (- 1)))"
  define s' where "s' = the (exec ?ls' s)"
  have e: "exec ?ls (entered None 1 False (- 1)) = Some s"
    unfolding s_def by code_simp
  have e': "exec ?ls' s = Some s'"
    unfolding s'_def s_def by code_simp
  have i: "0 < length (consumers s)"
    and pc: "cpc (consumers s ! 0) = CRaised (External ''TargetClosedError'') (Some job_a)"
    unfolding s_def by code_simp+
  have r: "run_pc s' = RJoin" unfolding s'_def s_def by code_simp
  from C10_unacknowledged_item_blocks_join[OF e, where i = 0 and e = "External ''TargetClosedError''" and job = job_a
      and ls' = ?ls' and s' = s'] i pc e'
  have "0 < unfinished_tasks (job_queue s')" by simp
  with e e' pc r show ?thesis by blast
qed

section \<open>Cancellation during the run\<close>

lemma set_update_ccancel:
  assumes "\<forall>c \<in> set cs. \<not> ccancel c" "\<not> ccancel c'"
  shows "\<forall>c \<in> set (cs[i := c']). \<not> ccancel c"
  using assms set_update_subset_insert[of cs i c'] by auto

lemma cancel_inv_set_consumer:
  assumes "cancel_inv s" "i < length (consumers s)" "ccancel c = ccancel (consumers s ! i)"
  shows "cancel_inv (set_consumer i c s)"
proof -
  have "run_pc s \<noteq> RDone \<Longrightarrow> \<forall>x \<in> set ((consumers s)[i := c]). \<not> ccancel x"
    using assms by (intro set_update_ccancel) (auto simp: cancel_inv_def)
  with assms(1,2) show ?thesis by (auto simp: cancel_inv_def)
qed

lemma cancel_inv_add_worker: "cancel_inv s \<Longrightarrow> cancel_inv (add_worker w s)"
  by (simp add: cancel_inv_def)

lemma cancel_inv_queue: "cancel_inv s \<Longrightarrow> cancel_inv (s\<lparr>job_queue := q\<rparr>)"
  by (simp add: cancel_inv_def)

lemma cancel_inv_producer:
  assumes "cancel_inv s" "producer s = Some p" "\<not> producer_done p" "\<not> pcancel p'"
    "ppc p' \<noteq> PCancelled"
  shows "cancel_inv (s\<lparr>producer := Some p'\<rparr>)"
  using assms by (auto simp: cancel_inv_def producer_done_def)

lemma cancel_inv_cancel_consumers:
  assumes "cancel_inv s" "run_pc s \<noteq> RInit" shows "cancel_inv (cancel_consumers s)"
  using assms by (auto simp: cancel_inv_def)

lemma cancel_inv_acknowledge:
  assumes "cancel_inv s" "i < length (consumers s)"
  shows "cancel_inv (acknowledge i job s)"
proof -
  from acknowledge_cases[of s i job] consider
      (bad) "acknowledge i job s
          = set_consumer i ((consumers s ! i)\<lparr>cpc := CRaised ValueError (Some job)\<rparr>) s"
    | (good) "acknowledge i job s
          = (set_consumer i ((consumers s ! i)\<lparr>cpc := CGet\<rparr>) s)
              \<lparr>job_queue := (job_queue s)\<lparr>unfinished_tasks := unfinished_tasks (job_queue s) - 1\<rparr>,
               run_pc := (if unfinished_tasks (job_queue s) = 1 \<and> run_pc s = RJoin
                          then RJoinWoken else run_pc s)\<rparr>"
    by blast
  then show ?thesis
  proof cases
    case bad
    show ?thesis unfolding bad by (rule cancel_inv_set_consumer[OF assms]) simp
  next
    case good
    have "cancel_inv (set_consumer i ((consumers s ! i)\<lparr>cpc := CGet\<rparr>) s)"
      by (rule cancel_inv_set_consumer[OF assms]) simp
    then show ?thesis unfolding good by (auto simp: cancel_inv_def)
  qed
qed

lemma cancel_inv_step:
  assumes "cancel_inv s" "step l s = Some s'" shows "cancel_inv s'"
proof (cases l)
  case RunSpawn
  with assms run_spawn_cases[of s s'] show ?thesis
    by (auto simp: cancel_inv_def new_consumer_def new_producer_def)
next
  case RunResume
  with assms(2) have "run_resume s = Some s'" by simp
  from run_resume_cases[OF this] assms(1) show ?thesis
    by (auto simp: cancel_inv_cancel_consumers) (auto simp: cancel_inv_def)
next
  case (ProducerStart io)
  with assms(2) have "producer_start io s = Some s'" by simp
  from producer_start_cases[OF this] obtain p where p: "producer s = Some p" "ppc p = PNew" "\<not> pcancel p"
    and c: "(\<exists>e. s' = s\<lparr>producer := Some (p\<lparr>ppc := PRaised e\<rparr>)\<rparr>)
        \<or> (\<exists>w. s' = (add_worker w s)\<lparr>producer := Some (p\<lparr>ppc := PFeed,
                                            pworker := Some (length (workers s))\<rparr>)\<rparr>)"
    by blast
  have nd: "\<not> producer_done p" using p by (simp add: producer_done_def)
  from c show ?thesis
  proof (elim disjE exE)
    fix e assume s': "s' = s\<lparr>producer := Some (p\<lparr>ppc := PRaised e\<rparr>)\<rparr>"
    show ?thesis unfolding s' by (rule cancel_inv_producer[OF assms(1) p(1) nd]) (simp_all add: p)
  next
    fix w assume s': "s' = (add_worker w s)\<lparr>producer := Some (p\<lparr>ppc := PFeed,
                                            pworker := Some (length (workers s))\<rparr>)\<rparr>"
    have "producer (add_worker w s) = Some p" using p by simp
    from cancel_inv_producer[OF cancel_inv_add_worker[OF assms(1)] this nd] p
    show ?thesis unfolding s' by simp
  qed
next
  case (ProducerNext fed)
  with assms(2) have "producer_next fed s = Some s'" by simp
  from producer_next_cases[OF this] obtain p where p: "producer s = Some p" "ppc p = PFeed" "\<not> pcancel p"
    and c: "(\<exists>x. x \<noteq> PCancelled \<and> s' = s\<lparr>producer := Some (p\<lparr>ppc := x\<rparr>)\<rparr>)
        \<or> (\<exists>job. s' = s\<lparr>job_queue := put_nowait job (job_queue s)\<rparr>)"
    by blast
  have nd: "\<not> producer_done p" using p by (simp add: producer_done_def)
  from c show ?thesis
  proof (elim disjE exE conjE)
    fix x assume "x \<noteq> PCancelled" and s': "s' = s\<lparr>producer := Some (p\<lparr>ppc := x\<rparr>)\<rparr>"
    then show ?thesis using cancel_inv_producer[OF assms(1) p(1) nd, of "p\<lparr>ppc := x\<rparr>"] p
      by simp
  next
    fix job assume "s' = s\<lparr>job_queue := put_nowait job (job_queue s)\<rparr>"
    then show ?thesis using cancel_inv_queue[OF assms(1)] by simp
  qed
next
  case ProducerPut
  with assms(2) have "producer_put s = Some s'" by simp
  from producer_put_cases[OF this] obtain p job where p: "producer s = Some p" "ppc p = PPut job"
    "\<not> pcancel p"
    and s': "s' = s\<lparr>job_queue := put_nowait job (job_queue s),
              producer := Some (p\<lparr>ppc := PFeed\<rparr>)\<rparr>"
    by blast
  have nd: "\<not> producer_done p" using p by (simp add: producer_done_def)
  have "producer (s\<lparr>job_queue := put_nowait job (job_queue s)\<rparr>) = Some p" using p by simp
  from cancel_inv_producer[OF cancel_inv_queue[OF assms(1)] this nd, of "p\<lparr>ppc := PFeed\<rparr>"] p
  show ?thesis unfolding s' by simp
next
  case (ConsumerStart i io)
  with assms(2) have "consumer_start i io s = Some s'" by simp
  from consumer_start_cases[OF this] have i: "i < length (consumers s)"
    and c: "(\<exists>e. s' = set_consumer i ((consumers s ! i)\<lparr>cpc := CRaised e None\<rparr>) s)
        \<or> (\<exists>w. s' = set_consumer i ((consumers s ! i)\<lparr>cpc := CGet,
                       cworker := Some (length (workers s))\<rparr>) (add_worker w s))"
    by blast+
  from c show ?thesis
  proof (elim disjE exE)
    fix e assume s': "s' = set_consumer i ((consumers s ! i)\<lparr>cpc := CRaised e None\<rparr>) s"
    show ?thesis unfolding s' by (rule cancel_inv_set_consumer[OF assms(1) i]) simp
  next
    fix w assume s': "s' = set_consumer i ((consumers s ! i)\<lparr>cpc := CGet,
                       cworker := Some (length (workers s))\<rparr>) (add_worker w s)"
    show ?thesis unfolding s'
      by (rule cancel_inv_set_consumer[OF cancel_inv_add_worker[OF assms(1)]]) (simp_all add: i)
  qed
next
  case (ConsumerGet i)
  with assms(2) have "consumer_get i s = Some s'" by simp
  from consumer_get_cases[OF this] obtain job rest where i: "i < length (consumers s)"
    and s': "s' = (set_consumer i ((consumers s ! i)\<lparr>cpc := CFetch job\<rparr>) s)
                   \<lparr>job_queue := (job_queue s)\<lparr>items := rest\<rparr>\<rparr>"
    by blast
  have "cancel_inv (set_consumer i ((consumers s ! i)\<lparr>cpc := CFetch job\<rparr>) s)"
    by (rule cancel_inv_set_consumer[OF assms(1) i]) simp
  from cancel_inv_queue[OF this] show ?thesis unfolding s' .
next
  case (ConsumerFetched i visited extracted)
  with assms(2) have "consumer_fetched i visited extracted s = Some s'" by simp
  from consumer_fetched_cases[OF this] obtain job where i: "i < length (consumers s)"
    and c: "(\<exists>e. s' = set_consumer i ((consumers s ! i)\<lparr>cpc := CRaised e (Some job)\<rparr>) s)
           \<or> s' = acknowledge i job s
           \<or> (\<exists>full_job. s' = set_consumer i ((consumers s ! i)\<lparr>cpc := CIndex full_job\<rparr>) s)"
    by blast
  from c show ?thesis
  proof (elim disjE exE)
    fix e assume s': "s' = set_consumer i ((consumers s ! i)\<lparr>cpc := CRaised e (Some job)\<rparr>) s"
    show ?thesis unfolding s' by (rule cancel_inv_set_consumer[OF assms(1) i]) simp
  next
    assume "s' = acknowledge i job s"
    with cancel_inv_acknowledge[OF assms(1) i] show ?thesis by simp
  next
    fix full_job assume s': "s' = set_consumer i ((consumers s ! i)\<lparr>cpc := CIndex full_job\<rparr>) s"
    show ?thesis unfolding s' by (rule cancel_inv_set_consumer[OF assms(1) i]) simp
  qed
next
  case (ConsumerIndexed i indexed)
  with assms(2) have "consumer_indexed i indexed s = Some s'" by simp
  from consumer_indexed_cases[OF this] obtain job where i: "i < length (consumers s)"
    and c: "(\<exists>e. s' = set_consumer i ((consumers s ! i)\<lparr>cpc := CRaised e (Some job)\<rparr>) s)
           \<or> s' = acknowledge i job s"
    by blast
  from c show ?thesis
  proof (elim disjE exE)
    fix e assume s': "s' = set_consumer i ((consumers s ! i)\<lparr>cpc := CRaised e (Some job)\<rparr>) s"
    show ?thesis unfolding s' by (rule cancel_inv_set_consumer[OF assms(1) i]) simp
  next
    assume "s' = acknowledge i job s"
    with cancel_inv_acknowledge[OF assms(1) i] show ?thesis by simp
  qed
next
  case (Deliver t)
  with assms(2) have "deliver t s = Some s'" by simp
  from deliver_cases[OF this] consider
      (prod) p where "producer s = Some p" "pcancel p"
    | (cons) i where "i < length (consumers s)"
        "s' = set_consumer i ((consumers s ! i)\<lparr>cpc := CCancelled (held (consumers s ! i))\<rparr>) s"
    by blast
  then show ?thesis
  proof cases
    case prod
    with assms(1) show ?thesis by (auto simp: cancel_inv_def)
  next
    case cons
    show ?thesis unfolding cons(2) by (rule cancel_inv_set_consumer[OF assms(1) cons(1)]) simp
  qed
qed

lemma cancel_inv_exec:
  "exec ls s = Some s' \<Longrightarrow> cancel_inv s \<Longrightarrow> cancel_inv s'"
proof (induction ls arbitrary: s)
  case Nil
  then show ?case by simp
next
  case (Cons l ls)
  from Cons.prems(1) obtain s1 where 1: "step l s = Some s1" and 2: "exec ls s1 = Some s'"
    by (cases "step l s") simp_all
  from Cons.IH[OF 2 cancel_inv_step[OF Cons.prems(2) 1]] show ?case .
qed

lemma cancel_inv_entered: "cancel_inv (entered q n h b)"
  by (simp add: entered_def aenter_def log_def JobIndexing_init_def cancel_inv_def)

lemma cancel_consumer_idem [simp]: "cancel_consumer (cancel_consumer c) = cancel_consumer c"
  by (simp add: cancel_consumer_def consumer_done_def)

lemma cancel_task_nth:
  "i < length (consumers s) \<Longrightarrow>
   consumers (cancel_task t s) ! i
     = (if t = Consumer i then cancel_consumer (consumers s ! i) else consumers s ! i)"
  by (cases t) (auto simp: cancel_task_def log_def nth_list_update)

lemma cancel_each_nth:
  "i < length (consumers s) \<Longrightarrow>
   consumers (cancel_each ts s) ! i
     = (if Consumer i \<in> set ts then cancel_consumer (consumers s ! i) else consumers s ! i)"
proof (induction ts arbitrary: s)
  case Nil
  then show ?case by simp
next
  case (Cons t ts)
  have 1: "i < length (consumers (cancel_task t s))" using Cons.prems by simp
  show ?case using Cons.IH[OF 1] cancel_task_nth[OF Cons.prems, of t] by auto
qed

lemma cancel_consumers_nth:
  "i < length (consumers s) \<Longrightarrow>
   consumers (cancel_consumers s) ! i = cancel_consumer (consumers s ! i)"
  by (simp add: cancel_consumers_def cancel_each_nth)

lemma cancel_consumer_requested: "ccancel c \<Longrightarrow> cancel_consumer c = c"
  by (simp add: cancel_consumer_def)

lemma acknowledge_raised_stays:
  "run_pc s = RRaised e \<Longrightarrow> run_pc (acknowledge i job s) = RRaised e"
  using acknowledge_cases[of s i job] by auto

lemma step_raised_stays:
  assumes "step l s = Some s'" "run_pc s = RRaised e" shows "run_pc s' = RRaised e"
proof (cases l)
  case RunSpawn
  with assms run_spawn_cases[of s s'] show ?thesis by simp
next
  case RunResume
  with assms run_resume_cases[of s s'] show ?thesis by auto
next
  case (ProducerStart io)
  with assms producer_start_cases[of io s s'] show ?thesis by auto
next
  case (ProducerNext fed)
  with assms producer_next_cases[of fed s s'] show ?thesis by auto
next
  case ProducerPut
  with assms producer_put_cases[of s s'] show ?thesis by auto
next
  case (ConsumerStart i io)
  with assms consumer_start_cases[of i io s s'] show ?thesis by auto
next
  case (ConsumerGet i)
  with assms consumer_get_cases[of i s s'] show ?thesis by auto
next
  case (ConsumerFetched i visited extracted)
  with assms consumer_fetched_cases[of i visited extracted s s']
  show ?thesis by (auto simp: acknowledge_raised_stays)
next
  case (ConsumerIndexed i indexed)
  with assms consumer_indexed_cases[of i indexed s s']
  show ?thesis by (auto simp: acknowledge_raised_stays)
next
  case (Deliver t)
  with assms deliver_cases[of t s s'] show ?thesis by auto
qed

lemma exec_raised_stays:
  "exec ls s = Some s' \<Longrightarrow> run_pc s = RRaised e \<Longrightarrow> run_pc s' = RRaised e"
proof (induction ls arbitrary: s)
  case Nil
  then show ?case by simp
next
  case (Cons l ls)
  from Cons.prems(1) obtain s1 where 1: "step l s = Some s1" and 2: "exec ls s1 = Some s'"
    by (cases "step l s") simp_all
  from Cons.IH[OF 2 step_raised_stays[OF 1 Cons.prems(2)]] show ?case .
qed

lemma requested_only_delivered:
  assumes "step l s = Some s'" "i < length (consumers s)" "ccancel (consumers s ! i)"
    "consumers s' ! i \<noteq> consumers s ! i" "run_pc s \<noteq> RInit"
  shows "l = Deliver (Consumer i)
     \<and> cpc (consumers s' ! i) = CCancelled (held (consumers s ! i))"
proof (cases l)
  case RunSpawn
  with assms run_spawn_cases[of s s'] show ?thesis by simp
next
  case RunResume
  with assms run_resume_cases[of s s'] show ?thesis
    by (auto simp: cancel_consumers_nth cancel_consumer_requested)
next
  case (ProducerStart io)
  with assms producer_start_cases[of io s s'] show ?thesis by auto
next
  case (ProducerNext fed)
  with assms producer_next_cases[of fed s s'] show ?thesis by auto
next
  case ProducerPut
  with assms producer_put_cases[of s s'] show ?thesis by auto
next
  case (ConsumerStart k io)
  with assms consumer_start_cases[of k io s s'] show ?thesis
    by (cases "k = i") auto
next
  case (ConsumerGet k)
  with assms consumer_get_cases[of k s s'] show ?thesis
    by (cases "k = i") auto
next
  case (ConsumerFetched k visited extracted)
  with assms consumer_fetched_cases[of k visited extracted s s'] show ?thesis
    by (cases "k = i") (auto simp: acknowledge_other)
next
  case (ConsumerIndexed k indexed)
  with assms consumer_indexed_cases[of k indexed s s'] show ?thesis
    by (cases "k = i") (auto simp: acknowledge_other)
next
  case (Deliver t)
  with assms deliver_cases[of t s s'] show ?thesis
    by (auto simp: nth_list_update split: if_splits)
qed

text \<open>
  C2, as the claim states it, fails: when the producer task raises, \<open>run()\<close> raises
  that exception as it resumes from \<open>await producer_task\<close> and is over. It has
  neither waited for the queue nor cancelled the consumer, which is still pending.
\<close>

theorem C2_producer_error_skips_drain_and_cancel:
  "map_option (\<lambda>s. (run_pc s, map cpc (consumers s), map ccancel (consumers s),
                     unfinished_tasks (job_queue s), effects s, step RunResume s))
     (exec [RunSpawn, ConsumerStart 0 (io_ok 1),
            ProducerStart (io_fail 0 (External ''TargetClosedError'')), RunResume]
        (entered None 1 False (- 1)))
   = Some (RRaised (External ''TargetClosedError''), [CGet], [False], 0,
           [EngineStart, BrowserLaunch False, ClientCreate], None)"
  by code_simp

text \<open>
  C2 (amended): when the producer task has raised, \<open>run()\<close> resumes by raising that
  exception, with the queue and the tasks as they were; from then on \<open>run()\<close>
  takes no further step, and no consumer has a cancellation requested by it.
\<close>

theorem C2_producer_error_ends_run:
  assumes run: "exec ls (entered q n h b) = Some s"
  shows "(run_pc s = RAwaitProducer \<and> producer s = Some p \<and> ppc p = PRaised e \<longrightarrow>
            step RunResume s = Some (s\<lparr>run_pc := RRaised e\<rparr>))
       \<and> (run_pc s = RRaised e \<and> exec ls' s = Some s' \<longrightarrow>
            run_pc s' = RRaised e \<and> (\<forall>c \<in> set (consumers s'). \<not> ccancel c)
            \<and> step RunResume s' = None)"
proof -
  have 1: "run_pc s = RAwaitProducer \<and> producer s = Some p \<and> ppc p = PRaised e \<longrightarrow>
            step RunResume s = Some (s\<lparr>run_pc := RRaised e\<rparr>)"
    by (simp add: run_resume_def)
  have 2: "run_pc s = RRaised e \<and> exec ls' s = Some s' \<longrightarrow>
            run_pc s' = RRaised e \<and> (\<forall>c \<in> set (consumers s'). \<not> ccancel c)
            \<and> step RunResume s' = None"
  proof
    assume a: "run_pc s = RRaised e \<and> exec ls' s = Some s'"
    then have r: "run_pc s' = RRaised e" using exec_raised_stays[of ls' s s' e] by simp
    have "cancel_inv s'"
      using cancel_inv_exec[OF _ cancel_inv_exec[OF run cancel_inv_entered]] a by blast
    with r have "\<forall>c \<in> set (consumers s'). \<not> ccancel c" by (simp add: cancel_inv_def)
    moreover have "step RunResume s' = None" using r by (simp add: run_resume_def)
    ultimately show "run_pc s' = RRaised e \<and> (\<forall>c \<in> set (consumers s'). \<not> ccancel c)
            \<and> step RunResume s' = None" using r by simp
  qed
  show ?thesis by (rule conjI[OF 1 2])
qed

theorem C2_producer_error_witness:
  "\<exists>s s'. exec [RunSpawn, ConsumerStart 0 (io_ok 1),
               ProducerStart (io_fail 0 (External ''TargetClosedError''))]
            (entered None 1 False (- 1)) = Some s
     \<and> step RunResume s = Some s'
     \<and> run_pc s' = RRaised (External ''TargetClosedError'')
     \<and> job_queue s' = job_queue s \<and> consumers s' = consumers s"
proof -
  let ?ls = "[RunSpawn, ConsumerStart 0 (io_ok 1),
               ProducerStart (io_fail 0 (External ''TargetClosedError''))]"
  define s where "s = the (exec ?ls (entered None 1 False (- 1)))"
  have e: "exec ?ls (entered None 1 False (- 1)) = Some s" unfolding s_def by code_simp
  have r: "run_pc s = RAwaitProducer"
    and p: "producer s = Some \<lparr>ppc = PRaised (External ''TargetClosedError''),
                              pworker = None, pcancel = False\<rparr>"
    unfolding s_def by code_simp+
  from C2_producer_error_ends_run[OF e, where p = "\<lparr>ppc = PRaised (External ''TargetClosedError''),
                              pworker = None, pcancel = False\<rparr>"
      and e = "External ''TargetClosedError''"] r p
  have "step RunResume s = Some (s\<lparr>run_pc := RRaised (External ''TargetClosedError'')\<rparr>)"
    by simp
  with e show ?thesis by auto
qed

text \<open>
  C9, as the claim states it, fails: \<open>run()\<close> returns in the step in which it
  requests the cancellations. After that step the consumer is still pending (not
  ended), and \<open>run()\<close> has no further step in which it could await it.
\<close>

theorem C9_run_returns_before_consumers_end:
  "map_option (\<lambda>s. (run_pc s, map cpc (consumers s), map ccancel (consumers s),
                     map consumer_done (consumers s), step RunResume s))
     (exec [RunSpawn, ProducerStart (io_ok 0), ConsumerStart 0 (io_ok 1),
            ProducerNext (Returns None), RunResume]
        (entered None 1 False (- 1)))
   = Some (RDone, [CGet], [True], [False], None)"
  by code_simp

text \<open>
  C9 (amended): a consumer has a cancellation requested only once the drain is complete
  (\<open>run()\<close> past \<open>join()\<close>, the counter at zero, the queue empty); the step of
  \<open>run()\<close> that requests the cancellations ends \<open>run()\<close> and leaves every
  consumer where it was, only marked; an exception \<open>run()\<close> raises is the
  producer's, never a consumer's cancellation; and the only step a consumer so marked
  can take is to end cancelled, holding no item.
\<close>

theorem C9_cancel_only_after_drain:
  assumes run: "exec ls (entered q n h b) = Some s"
  shows
  "(i < length (consumers s) \<and> ccancel (consumers s ! i) \<longrightarrow>
      run_pc s = RDone \<and> unfinished_tasks (job_queue s) = 0 \<and> items (job_queue s) = [])
   \<and> (step RunResume s = Some s' \<and> run_pc s' = RDone \<longrightarrow>
        map cpc (consumers s') = map cpc (consumers s)
        \<and> length (consumers s') = length (consumers s)
        \<and> (i < length (consumers s) \<longrightarrow>
             ccancel (consumers s' ! i) = (\<not> consumer_done (consumers s ! i)))
        \<and> step RunResume s' = None)
   \<and> (run_pc s = RRaised e \<longrightarrow> (\<exists>p. producer s = Some p \<and> ppc p = PRaised e))
   \<and> (i < length (consumers s) \<and> ccancel (consumers s ! i) \<and> step l s = Some s'
        \<and> consumers s' ! i \<noteq> consumers s ! i \<longrightarrow>
        l = Deliver (Consumer i) \<and> cpc (consumers s' ! i) = CCancelled None)"
proof -
  have d: "drain_inv s" by (rule drain_exec[OF run drain_entered])
  have c: "cancel_inv s" by (rule cancel_inv_exec[OF run cancel_inv_entered])
  have 1: "i < length (consumers s) \<and> ccancel (consumers s ! i) \<longrightarrow>
      run_pc s = RDone \<and> unfinished_tasks (job_queue s) = 0 \<and> items (job_queue s) = []"
  proof
    assume a: "i < length (consumers s) \<and> ccancel (consumers s ! i)"
    then have "consumers s ! i \<in> set (consumers s)" by simp
    with a c have r: "run_pc s = RDone" by (auto simp: cancel_inv_def)
    with d have u: "unfinished_tasks (job_queue s) = 0"
      by (simp add: drain_inv_def join_inv_def joined_def)
    with d have "items (job_queue s) = []" by (simp add: drain_inv_def counted_def)
    with r u show "run_pc s = RDone \<and> unfinished_tasks (job_queue s) = 0
      \<and> items (job_queue s) = []" by simp
  qed
  have 2: "step RunResume s = Some s' \<and> run_pc s' = RDone \<longrightarrow>
        map cpc (consumers s') = map cpc (consumers s)
        \<and> length (consumers s') = length (consumers s)
        \<and> (i < length (consumers s) \<longrightarrow>
             ccancel (consumers s' ! i) = (\<not> consumer_done (consumers s ! i)))
        \<and> step RunResume s' = None"
  proof
    assume a: "step RunResume s = Some s' \<and> run_pc s' = RDone"
    then have rr: "run_resume s = Some s'" by simp
    from run_resume_cases[OF rr] a have s': "s' = cancel_consumers s" and nd: "run_pc s \<noteq> RDone"
      by auto
    have "i < length (consumers s) \<Longrightarrow> \<not> ccancel (consumers s ! i)"
      using c nd by (auto simp: cancel_inv_def)
    then have "i < length (consumers s) \<longrightarrow>
             ccancel (consumers s' ! i) = (\<not> consumer_done (consumers s ! i))"
      by (auto simp: s' cancel_consumers_nth cancel_consumer_def)
    moreover have "step RunResume s' = None" using a by (simp add: run_resume_def)
    ultimately show "map cpc (consumers s') = map cpc (consumers s)
        \<and> length (consumers s') = length (consumers s)
        \<and> (i < length (consumers s) \<longrightarrow>
             ccancel (consumers s' ! i) = (\<not> consumer_done (consumers s ! i)))
        \<and> step RunResume s' = None"
      by (simp add: s')
  qed
  have 3: "run_pc s = RRaised e \<longrightarrow> (\<exists>p. producer s = Some p \<and> ppc p = PRaised e)"
    using c by (simp add: cancel_inv_def)
  have 4: "i < length (consumers s) \<and> ccancel (consumers s ! i) \<and> step l s = Some s'
        \<and> consumers s' ! i \<noteq> consumers s ! i \<longrightarrow>
        l = Deliver (Consumer i) \<and> cpc (consumers s' ! i) = CCancelled None"
  proof
    assume a: "i < length (consumers s) \<and> ccancel (consumers s ! i) \<and> step l s = Some s'
        \<and> consumers s' ! i \<noteq> consumers s ! i"
    with 1 have r: "run_pc s = RDone" and u: "unfinished_tasks (job_queue s) = 0" by simp_all
    from d u have "in_flight s = 0" by (simp add: drain_inv_def counted_def)
    with outstanding_le[of i "consumers s"] a have "outstanding (consumers s ! i) = 0"
      by (simp add: in_flight_def)
    then have h: "held (consumers s ! i) = None"
      by (simp add: outstanding_def split: option.splits)
    from requested_only_delivered[of l s s' i] a r h
    show "l = Deliver (Consumer i) \<and> cpc (consumers s' ! i) = CCancelled None" by simp
  qed
  show ?thesis by (rule conjI[OF 1 conjI[OF 2 conjI[OF 3 4]]])
qed

theorem C9_cancel_only_after_drain_witness:
  "\<exists>s s'. exec [RunSpawn, ProducerStart (io_ok 0), ConsumerStart 0 (io_ok 1),
            ProducerNext (Returns None), RunResume]
        (entered None 1 False (- 1)) = Some s
     \<and> ccancel (consumers s ! 0) \<and> run_pc s = RDone
     \<and> unfinished_tasks (job_queue s) = 0 \<and> items (job_queue s) = []
     \<and> step (Deliver (Consumer 0)) s = Some s'
     \<and> cpc (consumers s' ! 0) = CCancelled None"
proof -
  let ?ls = "[RunSpawn, ProducerStart (io_ok 0), ConsumerStart 0 (io_ok 1),
            ProducerNext (Returns None), RunResume]"
  define s where "s = the (exec ?ls (entered None 1 False (- 1)))"
  define s' where "s' = the (step (Deliver (Consumer 0)) s)"
  have e: "exec ?ls (entered None 1 False (- 1)) = Some s" unfolding s_def by code_simp
  have st: "step (Deliver (Consumer 0)) s = Some s'" unfolding s'_def s_def by code_simp
  have i: "0 < length (consumers s)" and cc: "ccancel (consumers s ! 0)"
    unfolding s_def by code_simp+
  have ne: "consumers s' ! 0 \<noteq> consumers s ! 0" unfolding s'_def s_def by code_simp
  from C9_cancel_only_after_drain[OF e, where i = 0 and l = "Deliver (Consumer 0)" and s' = s'] i cc st ne
  have "run_pc s = RDone \<and> unfinished_tasks (job_queue s) = 0 \<and> items (job_queue s) = []
     \<and> cpc (consumers s' ! 0) = CCancelled None" by simp
  with e cc st show ?thesis by blast
qed

section \<open>Tasks and the workers they own\<close>

lemma wf_consumer_append: "wf_consumer ws c \<Longrightarrow> wf_consumer (ws @ [w]) c"
  by (auto simp: wf_consumer_def nth_append split: option.splits)

lemma wf_producer_append: "wf_producer ws p \<Longrightarrow> wf_producer (ws @ [w]) p"
  by (auto simp: wf_producer_def nth_append split: option.splits)

lemma wf_consumer_cpc:
  assumes "wf_consumer ws c" "x \<noteq> CNew"
    "cworker c = None \<Longrightarrow> consumer_done (c\<lparr>cpc := x\<rparr>)"
  shows "wf_consumer ws (c\<lparr>cpc := x\<rparr>)"
  using assms by (auto simp: wf_consumer_def split: option.splits)

lemma wf_consumer_cancel: "wf_consumer ws (cancel_consumer c) = wf_consumer ws c"
  by (auto simp: wf_consumer_def cancel_consumer_def consumer_done_def split: option.splits)

lemma wf_consumer_active:
  assumes "wf_consumer ws c" "cpc c \<noteq> CNew" "\<not> consumer_done c"
  shows "cworker c \<noteq> None"
  using assms by (auto simp: wf_consumer_def split: option.splits)

lemma holders_update_same:
  "i < length xs \<Longrightarrow> xs ! i = None \<Longrightarrow>
   holders (xs[i := Some v]) = Suc (holders xs)"
proof (induction xs arbitrary: i)
  case Nil
  then show ?case by simp
next
  case (Cons x xs)
  then show ?case by (cases i) (auto simp: holders_def)
qed

lemma cws_frame [simp]:
  "cws (s\<lparr>run_pc := r\<rparr>) = cws s"
  "cws (s\<lparr>job_queue := q\<rparr>) = cws s"
  "cws (s\<lparr>producer := p\<rparr>) = cws s"
  "cws (add_worker w s) = cws s"
  "cws (cancel_consumers s) = cws s"
  by (simp_all add: cws_def)

lemma pws_frame [simp]:
  "pws (s\<lparr>run_pc := r\<rparr>) = pws s"
  "pws (s\<lparr>job_queue := q\<rparr>) = pws s"
  "pws (add_worker w s) = pws s"
  "pws (cancel_consumers s) = pws s"
  "pws (set_consumer i c s) = pws s"
  by (simp_all add: pws_def)

lemma cws_set_consumer:
  "cws (set_consumer i c s) = (cws s)[i := cworker c]"
  by (simp add: cws_def map_update)

lemma own_inv_pool: "own_inv s \<Longrightarrow> worker_pool s = [0..<length (workers s)]"
  and own_inv_consumer:
    "own_inv s \<Longrightarrow> i < length (consumers s) \<Longrightarrow> wf_consumer (workers s) (consumers s ! i)"
  and own_inv_producer: "own_inv s \<Longrightarrow> producer s = Some p \<Longrightarrow> wf_producer (workers s) p"
  and own_inv_distinct:
    "own_inv s \<Longrightarrow> i < length (cws s) \<Longrightarrow> j < length (cws s) \<Longrightarrow> cws s ! i \<noteq> None
       \<Longrightarrow> cws s ! i = cws s ! j \<Longrightarrow> i = j"
  and own_inv_count: "own_inv s \<Longrightarrow> length (workers s) = holders (cws s) + holders (pws s)"
  unfolding own_inv_def by blast+

lemma own_invI:
  assumes "worker_pool s = [0..<length (workers s)]"
    and "\<And>i. i < length (consumers s) \<Longrightarrow> wf_consumer (workers s) (consumers s ! i)"
    and "\<And>p. producer s = Some p \<Longrightarrow> wf_producer (workers s) p"
    and "\<And>i j. i < length (cws s) \<Longrightarrow> j < length (cws s) \<Longrightarrow> cws s ! i \<noteq> None
       \<Longrightarrow> cws s ! i = cws s ! j \<Longrightarrow> i = j"
    and "length (workers s) = holders (cws s) + holders (pws s)"
  shows "own_inv s"
  unfolding own_inv_def using assms by blast

lemma map_update_same: "f y = f (xs ! i) \<Longrightarrow> map f (xs[i := y]) = map f xs"
  by (cases "i < length xs") (simp_all add: map_update list_update_same_conv list_update_beyond)

lemma own_inv_frame:
  assumes "own_inv s" "workers s' = workers s" "worker_pool s' = worker_pool s"
    "consumers s' = consumers s" "producer s' = producer s"
  shows "own_inv s'"
  using assms(1) unfolding own_inv_def cws_def pws_def assms(2-5) .

lemma own_inv_cpc:
  assumes "own_inv s" "i < length (consumers s)" "x \<noteq> CNew"
    "cworker (consumers s ! i) = None \<Longrightarrow> consumer_done ((consumers s ! i)\<lparr>cpc := x\<rparr>)"
  shows "own_inv (set_consumer i ((consumers s ! i)\<lparr>cpc := x\<rparr>) s)"
proof -
  let ?c = "(consumers s ! i)\<lparr>cpc := x\<rparr>"
  let ?s' = "set_consumer i ?c s"
  have wf: "wf_consumer (workers s) ?c"
    by (rule wf_consumer_cpc[OF own_inv_consumer[OF assms(1,2)] assms(3,4)])
  have same: "cws ?s' = cws s"
    by (simp add: cws_def set_consumer_def map_update_same)
  show ?thesis
  proof (rule own_invI)
    show "worker_pool ?s' = [0..<length (workers ?s')]"
      using own_inv_pool[OF assms(1)] by simp
  next
    fix k assume "k < length (consumers ?s')"
    then have k: "k < length (consumers s)" by simp
    show "wf_consumer (workers ?s') (consumers ?s' ! k)"
      using wf own_inv_consumer[OF assms(1) k] k by (cases "k = i") simp_all
  next
    fix p assume "producer ?s' = Some p"
    then show "wf_producer (workers ?s') p" using own_inv_producer[OF assms(1)] by simp
  next
    fix a b assume "a < length (cws ?s')" "b < length (cws ?s')" "cws ?s' ! a \<noteq> None"
      "cws ?s' ! a = cws ?s' ! b"
    then show "a = b" unfolding same by (rule own_inv_distinct[OF assms(1)])
  next
    show "length (workers ?s') = holders (cws ?s') + holders (pws ?s')"
      unfolding same using own_inv_count[OF assms(1)] by simp
  qed
qed

lemma own_inv_add_consumer_worker:
  assumes "own_inv s" "i < length (consumers s)" "cpc (consumers s ! i) = CNew"
    "purpose w = ''Job Details Scraping''"
  shows "own_inv (set_consumer i ((consumers s ! i)\<lparr>cpc := CGet,
                       cworker := Some (length (workers s))\<rparr>) (add_worker w s))"
proof -
  let ?n = "length (workers s)"
  let ?c = "(consumers s ! i)\<lparr>cpc := CGet, cworker := Some ?n\<rparr>"
  let ?s' = "set_consumer i ?c (add_worker w s)"
  have wfi: "wf_consumer (workers s) (consumers s ! i)" by (rule own_inv_consumer[OF assms(1,2)])
  with assms(3) have none: "cworker (consumers s ! i) = None"
    by (auto simp: wf_consumer_def split: option.splits)
  have i': "i < length (cws s)" and ni: "cws s ! i = None"
    using assms(2) none by (simp_all add: cws_def)
  have cw: "cws ?s' = (cws s)[i := Some ?n]" by (simp add: cws_set_consumer)
  have bound: "\<And>k v. k < length (cws s) \<Longrightarrow> cws s ! k = Some v \<Longrightarrow> v < ?n"
  proof -
    fix k v assume k: "k < length (cws s)" "cws s ! k = Some v"
    then have "k < length (consumers s)" by (simp add: cws_def)
    from own_inv_consumer[OF assms(1) this] k show "v < ?n"
      by (auto simp: wf_consumer_def cws_def)
  qed
  have 1: "worker_pool ?s' = [0..<length (workers ?s')]"
    using own_inv_pool[OF assms(1)] by simp
  have 2: "\<forall>k < length (consumers ?s'). wf_consumer (workers ?s') (consumers ?s' ! k)"
  proof (intro allI impI)
    fix k assume "k < length (consumers ?s')"
    then have k: "k < length (consumers s)" by simp
    show "wf_consumer (workers ?s') (consumers ?s' ! k)"
    proof (cases "k = i")
      case True
      with k assms(4) show ?thesis by (simp add: wf_consumer_def)
    next
      case False
      with k own_inv_consumer[OF assms(1) k] show ?thesis by (simp add: wf_consumer_append)
    qed
  qed
  have 3: "\<forall>p. producer ?s' = Some p \<longrightarrow> wf_producer (workers ?s') p"
    using own_inv_producer[OF assms(1)] by (auto simp: wf_producer_append)
  have 4: "\<forall>a b. a < length (cws ?s') \<longrightarrow> b < length (cws ?s') \<longrightarrow> cws ?s' ! a \<noteq> None
             \<longrightarrow> cws ?s' ! a = cws ?s' ! b \<longrightarrow> a = b"
  proof (intro allI impI)
    fix a b assume a: "a < length (cws ?s')" and b: "b < length (cws ?s')"
      and nn: "cws ?s' ! a \<noteq> None" and eq: "cws ?s' ! a = cws ?s' ! b"
    from a b have a': "a < length (cws s)" and b': "b < length (cws s)" by (simp_all add: cw)
    show "a = b"
    proof (cases "a = i")
      case True
      show ?thesis
      proof (rule ccontr)
        assume "a \<noteq> b"
        with True eq a' b' have "cws s ! b = Some ?n" by (simp add: cw)
        from bound[OF b' this] show False by simp
      qed
    next
      case False
      show ?thesis
      proof (cases "b = i")
        case True
        with False eq a' b' have "cws s ! a = Some ?n" by (simp add: cw)
        from bound[OF a' this] show ?thesis by simp
      next
        case bF: False
        with False nn eq a' b' own_inv_distinct[OF assms(1) a' b'] show ?thesis by (simp add: cw)
      qed
    qed
  qed
  have h: "holders (cws ?s') = Suc (holders (cws s))"
    unfolding cw by (rule holders_update_same[OF i' ni])
  have lw: "length (workers ?s') = Suc (length (workers s))" by simp
  have pw: "pws ?s' = pws s" by simp
  have 5: "length (workers ?s') = holders (cws ?s') + holders (pws ?s')"
    unfolding lw h pw using own_inv_count[OF assms(1)] by simp
  from 1 2 3 4 5 show ?thesis unfolding own_inv_def by blast
qed

lemma acknowledge_frame [simp]:
  "tasks (acknowledge i job s) = tasks s"
  "conccurency_lvl (acknowledge i job s) = conccurency_lvl s"
  "producer (acknowledge i job s) = producer s"
  "workers (acknowledge i job s) = workers s"
  "worker_pool (acknowledge i job s) = worker_pool s"
  "browser (acknowledge i job s) = browser s"
  "maxsize (job_queue (acknowledge i job s)) = maxsize (job_queue s)"
  using acknowledge_cases[of s i job] by auto

lemma wf_producer_ppc:
  assumes "wf_producer ws p" "x \<noteq> PNew"
    "pworker p = None \<Longrightarrow> producer_done (p\<lparr>ppc := x\<rparr>)"
  shows "wf_producer ws (p\<lparr>ppc := x\<rparr>)"
  using assms by (auto simp: wf_producer_def split: option.splits)

lemma wf_producer_active:
  assumes "wf_producer ws p" "ppc p \<noteq> PNew" "\<not> producer_done p"
  shows "pworker p \<noteq> None"
  using assms by (auto simp: wf_producer_def split: option.splits)

lemma own_inv_ppc:
  assumes "own_inv s" "producer s = Some p" "x \<noteq> PNew"
    "pworker p = None \<Longrightarrow> producer_done (p\<lparr>ppc := x\<rparr>)"
  shows "own_inv (s\<lparr>producer := Some (p\<lparr>ppc := x\<rparr>)\<rparr>)"
proof -
  let ?s' = "s\<lparr>producer := Some (p\<lparr>ppc := x\<rparr>)\<rparr>"
  have pw: "pws ?s' = pws s" using assms(2) by (simp add: pws_def)
  have cw: "cws ?s' = cws s" by simp
  show ?thesis
  proof (rule own_invI)
    show "worker_pool ?s' = [0..<length (workers ?s')]"
      using own_inv_pool[OF assms(1)] by simp
  next
    fix k assume "k < length (consumers ?s')"
    then show "wf_consumer (workers ?s') (consumers ?s' ! k)"
      using own_inv_consumer[OF assms(1), of k] by simp
  next
    fix q assume "producer ?s' = Some q"
    then have "q = p\<lparr>ppc := x\<rparr>" by simp
    then show "wf_producer (workers ?s') q"
      using wf_producer_ppc[OF own_inv_producer[OF assms(1,2)] assms(3,4)] by simp
  next
    fix a b assume "a < length (cws ?s')" "b < length (cws ?s')" "cws ?s' ! a \<noteq> None"
      "cws ?s' ! a = cws ?s' ! b"
    then show "a = b" unfolding cw by (rule own_inv_distinct[OF assms(1)])
  next
    show "length (workers ?s') = holders (cws ?s') + holders (pws ?s')"
      unfolding cw pw using own_inv_count[OF assms(1)] by simp
  qed
qed

lemma own_inv_add_producer_worker:
  assumes "own_inv s" "producer s = Some p" "ppc p = PNew" "purpose w = ''Feed Scraping''"
  shows "own_inv ((add_worker w s)\<lparr>producer := Some (p\<lparr>ppc := PFeed,
                                            pworker := Some (length (workers s))\<rparr>)\<rparr>)"
proof -
  let ?s' = "(add_worker w s)\<lparr>producer := Some (p\<lparr>ppc := PFeed,
                                            pworker := Some (length (workers s))\<rparr>)\<rparr>"
  from own_inv_producer[OF assms(1,2)] assms(3) have none: "pworker p = None"
    by (auto simp: wf_producer_def split: option.splits)
  have pw: "holders (pws ?s') = 1" "holders (pws s) = 0"
    using assms(2) none by (simp_all add: pws_def holders_def)
  have cw: "cws ?s' = cws s" by simp
  have lw: "length (workers ?s') = Suc (length (workers s))" by simp
  show ?thesis
  proof (rule own_invI)
    show "worker_pool ?s' = [0..<length (workers ?s')]"
      using own_inv_pool[OF assms(1)] by simp
  next
    fix k assume "k < length (consumers ?s')"
    then show "wf_consumer (workers ?s') (consumers ?s' ! k)"
      using own_inv_consumer[OF assms(1), of k] by (simp add: wf_consumer_append)
  next
    fix q assume "producer ?s' = Some q"
    then have "q = p\<lparr>ppc := PFeed, pworker := Some (length (workers s))\<rparr>" by simp
    then show "wf_producer (workers ?s') q" using assms(4) by (simp add: wf_producer_def)
  next
    fix a b assume "a < length (cws ?s')" "b < length (cws ?s')" "cws ?s' ! a \<noteq> None"
      "cws ?s' ! a = cws ?s' ! b"
    then show "a = b" unfolding cw by (rule own_inv_distinct[OF assms(1)])
  next
    show "length (workers ?s') = holders (cws ?s') + holders (pws ?s')"
      unfolding lw cw pw using own_inv_count[OF assms(1)] pw(2) by simp
  qed
qed

lemma own_inv_cancel_consumers:
  assumes "own_inv s" shows "own_inv (cancel_consumers s)"
proof (rule own_invI)
  show "worker_pool (cancel_consumers s) = [0..<length (workers (cancel_consumers s))]"
    using own_inv_pool[OF assms] by simp
next
  fix k assume "k < length (consumers (cancel_consumers s))"
  then have k: "k < length (consumers s)" by simp
  show "wf_consumer (workers (cancel_consumers s)) (consumers (cancel_consumers s) ! k)"
    using own_inv_consumer[OF assms k] by (simp add: cancel_consumers_nth[OF k] wf_consumer_cancel)
next
  fix p assume "producer (cancel_consumers s) = Some p"
  then show "wf_producer (workers (cancel_consumers s)) p"
    using own_inv_producer[OF assms] by simp
next
  fix a b assume "a < length (cws (cancel_consumers s))" "b < length (cws (cancel_consumers s))"
    "cws (cancel_consumers s) ! a \<noteq> None"
    "cws (cancel_consumers s) ! a = cws (cancel_consumers s) ! b"
  then show "a = b" unfolding cws_frame by (rule own_inv_distinct[OF assms])
next
  show "length (workers (cancel_consumers s))
          = holders (cws (cancel_consumers s)) + holders (pws (cancel_consumers s))"
    unfolding cws_frame pws_frame using own_inv_count[OF assms] by simp
qed

lemma own_inv_acknowledge:
  assumes "own_inv s" "i < length (consumers s)" "cpc (consumers s ! i) \<noteq> CNew"
    "\<not> consumer_done (consumers s ! i)"
  shows "own_inv (acknowledge i job s)"
proof -
  have w: "cworker (consumers s ! i) \<noteq> None"
    by (rule wf_consumer_active[OF own_inv_consumer[OF assms(1,2)] assms(3,4)])
  from acknowledge_cases[of s i job] consider
      (bad) "acknowledge i job s
          = set_consumer i ((consumers s ! i)\<lparr>cpc := CRaised ValueError (Some job)\<rparr>) s"
    | (good) "acknowledge i job s
          = (set_consumer i ((consumers s ! i)\<lparr>cpc := CGet\<rparr>) s)
              \<lparr>job_queue := (job_queue s)\<lparr>unfinished_tasks := unfinished_tasks (job_queue s) - 1\<rparr>,
               run_pc := (if unfinished_tasks (job_queue s) = 1 \<and> run_pc s = RJoin
                          then RJoinWoken else run_pc s)\<rparr>"
    by blast
  then show ?thesis
  proof cases
    case bad
    show ?thesis unfolding bad by (rule own_inv_cpc[OF assms(1,2)]) (simp_all add: w)
  next
    case good
    have "own_inv (set_consumer i ((consumers s ! i)\<lparr>cpc := CGet\<rparr>) s)"
      by (rule own_inv_cpc[OF assms(1,2)]) (simp_all add: w)
    then show ?thesis unfolding good by (rule own_inv_frame) simp_all
  qed
qed

lemma replicate_none_holders [simp]: "holders (replicate n None) = 0"
  by (simp add: holders_def)

lemma own_inv_run_spawn:
  assumes "spawn_inv s" "run_spawn s = Some s'" shows "own_inv s'"
proof -
  note c = run_spawn_cases[OF assms(2)]
  from c assms(1) have e: "workers s = []" "worker_pool s = []" by (simp_all add: spawn_inv_def)
  let ?n = "nat (conccurency_lvl s)"
  have w: "workers s' = []" "worker_pool s' = []"
    "consumers s' = replicate ?n new_consumer" "producer s' = Some new_producer"
    using c e by (cases s, simp)+
  have cw: "cws s' = replicate ?n None" by (simp add: cws_def w new_consumer_def)
  have pw: "pws s' = [None]" by (simp add: pws_def w new_producer_def)
  show ?thesis
  proof (rule own_invI)
    show "worker_pool s' = [0..<length (workers s')]" by (simp add: w)
  next
    fix k assume "k < length (consumers s')"
    then show "wf_consumer (workers s') (consumers s' ! k)"
      by (simp add: w wf_consumer_def new_consumer_def)
  next
    fix p assume "producer s' = Some p"
    then show "wf_producer (workers s') p" by (auto simp: w wf_producer_def new_producer_def)
  next
    fix a b assume "a < length (cws s')" "cws s' ! a \<noteq> None"
    then show "a = b" by (simp add: cw)
  next
    show "length (workers s') = holders (cws s') + holders (pws s')"
      by (simp add: w cw pw) (simp add: holders_def)
  qed
qed

lemma step_frame:
  assumes "step l s = Some s'" "run_pc s \<noteq> RInit"
  shows "tasks s' = tasks s \<and> conccurency_lvl s' = conccurency_lvl s
     \<and> (producer s \<noteq> None \<longrightarrow> producer s' \<noteq> None)"
proof (cases l)
  case RunSpawn
  with assms run_spawn_cases[of s s'] show ?thesis by simp
next
  case RunResume
  with assms run_resume_cases[of s s'] show ?thesis by auto
next
  case (ProducerStart io)
  with assms producer_start_cases[of io s s'] show ?thesis by auto
next
  case (ProducerNext fed)
  with assms producer_next_cases[of fed s s'] show ?thesis by auto
next
  case ProducerPut
  with assms producer_put_cases[of s s'] show ?thesis by auto
next
  case (ConsumerStart i io)
  with assms consumer_start_cases[of i io s s'] show ?thesis by auto
next
  case (ConsumerGet i)
  with assms consumer_get_cases[of i s s'] show ?thesis by auto
next
  case (ConsumerFetched i visited extracted)
  with assms consumer_fetched_cases[of i visited extracted s s'] show ?thesis by auto
next
  case (ConsumerIndexed i indexed)
  with assms consumer_indexed_cases[of i indexed s s'] show ?thesis by auto
next
  case (Deliver t)
  with assms deliver_cases[of t s s'] show ?thesis by auto
qed

lemma step_at_init:
  assumes "step l s = Some s'" "run_pc s = RInit" "spawn_inv s"
  shows "l = RunSpawn"
proof -
  from assms(2,3) have e: "consumers s = []" "producer s = None" by (simp_all add: spawn_inv_def)
  show ?thesis
  proof (cases l)
    case RunResume
    with assms run_resume_cases[of s s'] show ?thesis by auto
  next
    case (ProducerStart io)
    with assms e producer_start_cases[of io s s'] show ?thesis by auto
  next
    case (ProducerNext fed)
    with assms e producer_next_cases[of fed s s'] show ?thesis by auto
  next
    case ProducerPut
    with assms e producer_put_cases[of s s'] show ?thesis by auto
  next
    case (ConsumerStart i io)
    with assms e consumer_start_cases[of i io s s'] show ?thesis by auto
  next
    case (ConsumerGet i)
    with assms e consumer_get_cases[of i s s'] show ?thesis by auto
  next
    case (ConsumerFetched i visited extracted)
    with assms e consumer_fetched_cases[of i visited extracted s s'] show ?thesis by auto
  next
    case (ConsumerIndexed i indexed)
    with assms e consumer_indexed_cases[of i indexed s s'] show ?thesis by auto
  next
    case (Deliver t)
    with assms e deliver_cases[of t s s'] show ?thesis by auto
  qed simp
qed

lemma spawn_inv_step:
  assumes "spawn_inv s" "step l s = Some s'" shows "spawn_inv s'"
proof (cases "run_pc s = RInit")
  case True
  from step_at_init[OF assms(2) True assms(1)] assms(2) have "run_spawn s = Some s'" by simp
  from run_spawn_cases[OF this] True assms(1) show ?thesis by (auto simp: spawn_inv_def)
next
  case False
  from step_not_init[OF assms(2) False] step_length_consumers[OF assms(2) False]
    step_frame[OF assms(2) False] False assms(1)
  show ?thesis by (auto simp: spawn_inv_def)
qed

lemma init_purpose:
  "ScrapingWorker_init b proxy_info purp io = Returns w \<Longrightarrow> purpose w = purp"
  by (auto simp: ScrapingWorker_init_def split: option.splits outcome.splits)

lemma own_inv_step:
  assumes "own_inv s" "spawn_inv s" "step l s = Some s'" shows "own_inv s'"
proof (cases l)
  case RunSpawn
  with assms(3) have "run_spawn s = Some s'" by simp
  then show ?thesis by (rule own_inv_run_spawn[OF assms(2)])
next
  case RunResume
  with assms(3) have "run_resume s = Some s'" by simp
  from run_resume_cases[OF this] consider
      (pc) x where "s' = s\<lparr>run_pc := x\<rparr>" | (cancel) "s' = cancel_consumers s"
    by blast
  then show ?thesis
  proof cases
    case pc
    show ?thesis unfolding pc by (rule own_inv_frame[OF assms(1)]) simp_all
  next
    case cancel
    show ?thesis unfolding cancel by (rule own_inv_cancel_consumers[OF assms(1)])
  qed
next
  case (ProducerStart io)
  with assms(3) have "producer_start io s = Some s'" by simp
  from producer_start_cases[OF this] obtain p where p: "producer s = Some p" "ppc p = PNew"
    and c: "(\<exists>e. s' = s\<lparr>producer := Some (p\<lparr>ppc := PRaised e\<rparr>)\<rparr>)
        \<or> (\<exists>w. purpose w = ''Feed Scraping''
              \<and> s' = (add_worker w s)\<lparr>producer := Some (p\<lparr>ppc := PFeed,
                                            pworker := Some (length (workers s))\<rparr>)\<rparr>)"
    by (auto dest: init_purpose)
  from c show ?thesis
  proof (elim disjE exE conjE)
    fix e assume s': "s' = s\<lparr>producer := Some (p\<lparr>ppc := PRaised e\<rparr>)\<rparr>"
    show ?thesis unfolding s'
      by (rule own_inv_ppc[OF assms(1) p(1)]) (simp_all add: producer_done_def)
  next
    fix w assume w: "purpose w = ''Feed Scraping''"
      and s': "s' = (add_worker w s)\<lparr>producer := Some (p\<lparr>ppc := PFeed,
                                            pworker := Some (length (workers s))\<rparr>)\<rparr>"
    show ?thesis unfolding s' by (rule own_inv_add_producer_worker[OF assms(1) p w])
  qed
next
  case (ProducerNext fed)
  with assms(3) have "producer_next fed s = Some s'" by simp
  from producer_next_cases[OF this] obtain p where p: "producer s = Some p" "ppc p = PFeed"
    and c: "(\<exists>x. x \<noteq> PNew \<and> s' = s\<lparr>producer := Some (p\<lparr>ppc := x\<rparr>)\<rparr>)
        \<or> (\<exists>job. s' = s\<lparr>job_queue := put_nowait job (job_queue s)\<rparr>)"
    by blast
  have w: "pworker p \<noteq> None"
    by (rule wf_producer_active[OF own_inv_producer[OF assms(1) p(1)]])
       (simp_all add: p producer_done_def)
  from c show ?thesis
  proof (elim disjE exE conjE)
    fix x assume x: "x \<noteq> PNew" and s': "s' = s\<lparr>producer := Some (p\<lparr>ppc := x\<rparr>)\<rparr>"
    show ?thesis unfolding s' by (rule own_inv_ppc[OF assms(1) p(1) x]) (simp add: w)
  next
    fix job assume s': "s' = s\<lparr>job_queue := put_nowait job (job_queue s)\<rparr>"
    show ?thesis unfolding s' by (rule own_inv_frame[OF assms(1)]) simp_all
  qed
next
  case ProducerPut
  with assms(3) have "producer_put s = Some s'" by simp
  from producer_put_cases[OF this] obtain p job where p: "producer s = Some p" "ppc p = PPut job"
    and s': "s' = s\<lparr>job_queue := put_nowait job (job_queue s),
              producer := Some (p\<lparr>ppc := PFeed\<rparr>)\<rparr>"
    by blast
  have w: "pworker p \<noteq> None"
    by (rule wf_producer_active[OF own_inv_producer[OF assms(1) p(1)]])
       (simp_all add: p producer_done_def)
  have 1: "own_inv (s\<lparr>job_queue := put_nowait job (job_queue s)\<rparr>)"
    by (rule own_inv_frame[OF assms(1)]) simp_all
  have 2: "producer (s\<lparr>job_queue := put_nowait job (job_queue s)\<rparr>) = Some p" using p by simp
  show ?thesis unfolding s' using own_inv_ppc[OF 1 2, of PFeed] w by simp
next
  case (ConsumerStart i io)
  with assms(3) have "consumer_start i io s = Some s'" by simp
  from consumer_start_cases[OF this] have i: "i < length (consumers s)"
    and pc: "cpc (consumers s ! i) = CNew"
    and c: "(\<exists>e. s' = set_consumer i ((consumers s ! i)\<lparr>cpc := CRaised e None\<rparr>) s)
        \<or> (\<exists>w. purpose w = ''Job Details Scraping''
            \<and> s' = set_consumer i ((consumers s ! i)\<lparr>cpc := CGet,
                       cworker := Some (length (workers s))\<rparr>) (add_worker w s))"
    by (auto dest: init_purpose)
  from c show ?thesis
  proof (elim disjE exE conjE)
    fix e assume s': "s' = set_consumer i ((consumers s ! i)\<lparr>cpc := CRaised e None\<rparr>) s"
    show ?thesis unfolding s'
      by (rule own_inv_cpc[OF assms(1) i]) (simp_all add: consumer_done_def)
  next
    fix w assume w: "purpose w = ''Job Details Scraping''"
      and s': "s' = set_consumer i ((consumers s ! i)\<lparr>cpc := CGet,
                       cworker := Some (length (workers s))\<rparr>) (add_worker w s)"
    show ?thesis unfolding s' by (rule own_inv_add_consumer_worker[OF assms(1) i pc w])
  qed
next
  case (ConsumerGet i)
  with assms(3) have "consumer_get i s = Some s'" by simp
  from consumer_get_cases[OF this] obtain job rest where i: "i < length (consumers s)"
    and pc: "cpc (consumers s ! i) = CGet"
    and s': "s' = (set_consumer i ((consumers s ! i)\<lparr>cpc := CFetch job\<rparr>) s)
                   \<lparr>job_queue := (job_queue s)\<lparr>items := rest\<rparr>\<rparr>"
    by blast
  have w: "cworker (consumers s ! i) \<noteq> None"
    by (rule wf_consumer_active[OF own_inv_consumer[OF assms(1) i]])
       (simp_all add: pc consumer_done_def)
  have "own_inv (set_consumer i ((consumers s ! i)\<lparr>cpc := CFetch job\<rparr>) s)"
    by (rule own_inv_cpc[OF assms(1) i]) (simp_all add: w)
  then show ?thesis unfolding s' by (rule own_inv_frame) simp_all
next
  case (ConsumerFetched i visited extracted)
  with assms(3) have "consumer_fetched i visited extracted s = Some s'" by simp
  from consumer_fetched_cases[OF this] obtain job where i: "i < length (consumers s)"
    and pc: "cpc (consumers s ! i) = CFetch job"
    and c: "(\<exists>e. s' = set_consumer i ((consumers s ! i)\<lparr>cpc := CRaised e (Some job)\<rparr>) s)
           \<or> s' = acknowledge i job s
           \<or> (\<exists>full_job. s' = set_consumer i ((consumers s ! i)\<lparr>cpc := CIndex full_job\<rparr>) s)"
    by blast
  have a: "cpc (consumers s ! i) \<noteq> CNew" "\<not> consumer_done (consumers s ! i)"
    using pc by (simp_all add: consumer_done_def)
  have w: "cworker (consumers s ! i) \<noteq> None"
    by (rule wf_consumer_active[OF own_inv_consumer[OF assms(1) i] a])
  from c show ?thesis
  proof (elim disjE exE)
    fix e assume s': "s' = set_consumer i ((consumers s ! i)\<lparr>cpc := CRaised e (Some job)\<rparr>) s"
    show ?thesis unfolding s' by (rule own_inv_cpc[OF assms(1) i]) (simp_all add: w)
  next
    assume "s' = acknowledge i job s"
    with own_inv_acknowledge[OF assms(1) i a] show ?thesis by simp
  next
    fix full_job assume s': "s' = set_consumer i ((consumers s ! i)\<lparr>cpc := CIndex full_job\<rparr>) s"
    show ?thesis unfolding s' by (rule own_inv_cpc[OF assms(1) i]) (simp_all add: w)
  qed
next
  case (ConsumerIndexed i indexed)
  with assms(3) have "consumer_indexed i indexed s = Some s'" by simp
  from consumer_indexed_cases[OF this] obtain job where i: "i < length (consumers s)"
    and pc: "cpc (consumers s ! i) = CIndex job"
    and c: "(\<exists>e. s' = set_consumer i ((consumers s ! i)\<lparr>cpc := CRaised e (Some job)\<rparr>) s)
           \<or> s' = acknowledge i job s"
    by blast
  have a: "cpc (consumers s ! i) \<noteq> CNew" "\<not> consumer_done (consumers s ! i)"
    using pc by (simp_all add: consumer_done_def)
  have w: "cworker (consumers s ! i) \<noteq> None"
    by (rule wf_consumer_active[OF own_inv_consumer[OF assms(1) i] a])
  from c show ?thesis
  proof (elim disjE exE)
    fix e assume s': "s' = set_consumer i ((consumers s ! i)\<lparr>cpc := CRaised e (Some job)\<rparr>) s"
    show ?thesis unfolding s' by (rule own_inv_cpc[OF assms(1) i]) (simp_all add: w)
  next
    assume "s' = acknowledge i job s"
    with own_inv_acknowledge[OF assms(1) i a] show ?thesis by simp
  qed
next
  case (Deliver t)
  with assms(3) have "deliver t s = Some s'" by simp
  from deliver_cases[OF this] consider
      (prod) p where "producer s = Some p" "s' = s\<lparr>producer := Some (p\<lparr>ppc := PCancelled\<rparr>)\<rparr>"
    | (cons) i where "i < length (consumers s)"
        "s' = set_consumer i ((consumers s ! i)\<lparr>cpc := CCancelled (held (consumers s ! i))\<rparr>) s"
    by blast
  then show ?thesis
  proof cases
    case prod
    show ?thesis unfolding prod(2)
      by (rule own_inv_ppc[OF assms(1) prod(1)]) (simp_all add: producer_done_def)
  next
    case cons
    show ?thesis unfolding cons(2)
      by (rule own_inv_cpc[OF assms(1) cons(1)]) (simp_all add: consumer_done_def)
  qed
qed

lemma own_inv_exec:
  "exec ls s = Some s' \<Longrightarrow> own_inv s \<Longrightarrow> spawn_inv s \<Longrightarrow> own_inv s' \<and> spawn_inv s'"
proof (induction ls arbitrary: s)
  case Nil
  then show ?case by simp
next
  case (Cons l ls)
  from Cons.prems(1) obtain s1 where 1: "step l s = Some s1" and 2: "exec ls s1 = Some s'"
    by (cases "step l s") simp_all
  from Cons.IH[OF 2 own_inv_step[OF Cons.prems(2,3) 1] spawn_inv_step[OF Cons.prems(3) 1]]
  show ?case .
qed

lemma own_inv_entered: "own_inv (entered q n h b)" "spawn_inv (entered q n h b)"
  by (simp_all add: entered_def aenter_def log_def JobIndexing_init_def own_inv_def
        spawn_inv_def cws_def pws_def holders_def)

lemma exec_lvl:
  "exec ls s = Some s' \<Longrightarrow> conccurency_lvl s' = conccurency_lvl s"
proof (induction ls arbitrary: s)
  case Nil
  then show ?case by simp
next
  case (Cons l ls)
  from Cons.prems(1) obtain s1 where 1: "step l s = Some s1" and 2: "exec ls s1 = Some s'"
    by (cases "step l s") simp_all
  have "conccurency_lvl s1 = conccurency_lvl s"
  proof (cases "run_pc s = RInit")
    case True
    show ?thesis
    proof (cases l)
      case RunSpawn
      with 1 run_spawn_cases[of s s1] show ?thesis by simp
    next
      case RunResume
      with 1 True run_resume_cases[of s s1] show ?thesis by auto
    next
      case (ProducerStart io)
      with 1 producer_start_cases[of io s s1] show ?thesis by auto
    next
      case (ProducerNext fed)
      with 1 producer_next_cases[of fed s s1] show ?thesis by auto
    next
      case ProducerPut
      with 1 producer_put_cases[of s s1] show ?thesis by auto
    next
      case (ConsumerStart i io)
      with 1 consumer_start_cases[of i io s s1] show ?thesis by auto
    next
      case (ConsumerGet i)
      with 1 consumer_get_cases[of i s s1] show ?thesis by auto
    next
      case (ConsumerFetched i visited extracted)
      with 1 consumer_fetched_cases[of i visited extracted s s1] show ?thesis by auto
    next
      case (ConsumerIndexed i indexed)
      with 1 consumer_indexed_cases[of i indexed s s1] show ?thesis by auto
    next
      case (Deliver t)
      with 1 deliver_cases[of t s s1] show ?thesis by auto
    qed
  next
    case False
    from step_frame[OF 1 False] show ?thesis by simp
  qed
  with Cons.IH[OF 2] show ?case by simp
qed

lemma cworker_cancel_consumer [simp]: "cworker (cancel_consumer c) = cworker c"
  by (simp add: cancel_consumer_def)

lemma acknowledge_cworker:
  "k < length (consumers s) \<Longrightarrow>
   cworker (consumers (acknowledge i job s) ! k) = cworker (consumers s ! k)"
  using acknowledge_cases[of s i job] by (cases "k = i") auto

lemma step_worker_stable:
  assumes "own_inv s" "spawn_inv s" "step l s = Some s'" "i < length (consumers s)"
    "cworker (consumers s ! i) = Some w"
  shows "cworker (consumers s' ! i) = Some w \<and> workers s' ! w = workers s ! w"
proof -
  from own_inv_consumer[OF assms(1,4)] assms(5)
  have w: "w < length (workers s)" and nn: "cpc (consumers s ! i) \<noteq> CNew"
    by (auto simp: wf_consumer_def)
  from assms(2,4) have ni: "run_pc s \<noteq> RInit" by (auto simp: spawn_inv_def)
  show ?thesis
  proof (cases l)
    case RunSpawn
    with assms(3) ni run_spawn_cases[of s s'] show ?thesis by simp
  next
    case RunResume
    with assms(3,4,5) run_resume_cases[of s s'] show ?thesis
      by (auto simp: cancel_consumers_nth)
  next
    case (ProducerStart io)
    with assms(3,5) w producer_start_cases[of io s s'] show ?thesis
      by (auto simp: nth_append)
  next
    case (ProducerNext fed)
    with assms(3,5) producer_next_cases[of fed s s'] show ?thesis by auto
  next
    case ProducerPut
    with assms(3,5) producer_put_cases[of s s'] show ?thesis by auto
  next
    case (ConsumerStart k io)
    with assms(3,4,5) w nn consumer_start_cases[of k io s s'] show ?thesis
      by (cases "k = i") (auto simp: nth_append)
  next
    case (ConsumerGet k)
    with assms(3,4,5) consumer_get_cases[of k s s'] show ?thesis
      by (cases "k = i") auto
  next
    case (ConsumerFetched k visited extracted)
    with assms(3,4,5) consumer_fetched_cases[of k visited extracted s s'] show ?thesis
      by (cases "k = i") (auto simp: acknowledge_cworker)
  next
    case (ConsumerIndexed k indexed)
    with assms(3,4,5) consumer_indexed_cases[of k indexed s s'] show ?thesis
      by (cases "k = i") (auto simp: acknowledge_cworker)
  next
    case (Deliver t)
    with assms(3,4,5) deliver_cases[of t s s'] show ?thesis
      by (auto simp: nth_list_update)
  qed
qed

lemma exec_worker_stable:
  "exec ls s = Some s' \<Longrightarrow> own_inv s \<Longrightarrow> spawn_inv s \<Longrightarrow> i < length (consumers s)
   \<Longrightarrow> cworker (consumers s ! i) = Some w
   \<Longrightarrow> cworker (consumers s' ! i) = Some w \<and> workers s' ! w = workers s ! w"
proof (induction ls arbitrary: s)
  case Nil
  then show ?case by simp
next
  case (Cons l ls)
  from Cons.prems(1) obtain s1 where 1: "step l s = Some s1" and 2: "exec ls s1 = Some s'"
    by (cases "step l s") simp_all
  from Cons.prems(3,4) have ni: "run_pc s \<noteq> RInit" by (auto simp: spawn_inv_def)
  note st = step_worker_stable[OF Cons.prems(2,3) 1 Cons.prems(4,5)]
  have i1: "i < length (consumers s1)"
    using step_length_consumers[OF 1 ni] Cons.prems(4) by simp
  from Cons.IH[OF 2 own_inv_step[OF Cons.prems(2,3) 1] spawn_inv_step[OF Cons.prems(3) 1] i1]
    st
  show ?case by simp
qed

lemma filter_producer [simp]: "filter (\<lambda>t. t = Producer) (map Consumer ns) = []"
  by (induction ns) simp_all

text \<open>
  C7: once \<open>run()\<close> has started, \<open>self.tasks\<close> holds exactly one producer task and
  one consumer task for each index below \<open>conccurency_lvl\<close>; a consumer past its
  construction holds one worker, a detail-fetch worker; no other consumer and not the
  producer holds that worker; there are as many worker objects as tasks holding one
  (so no task ever constructed a second); and a consumer keeps its worker, unchanged,
  for the rest of the run.
\<close>

theorem C7_tasks_and_exclusive_workers:
  assumes run: "exec ls (entered q n h b) = Some s" and spawned: "run_pc s \<noteq> RInit"
  shows
   "tasks s = Producer # map Consumer [0..<nat n]
    \<and> length (filter (\<lambda>t. t = Producer) (tasks s)) = 1
    \<and> length (consumers s) = nat n
    \<and> (0 \<le> n \<longrightarrow> int (length (consumers s)) = n)
    \<and> (i < length (consumers s) \<and> cpc (consumers s ! i) \<noteq> CNew
         \<and> \<not> consumer_done (consumers s ! i) \<longrightarrow>
         (\<exists>w. cworker (consumers s ! i) = Some w \<and> w < length (workers s)
              \<and> purpose (workers s ! w) = ''Job Details Scraping''))
    \<and> (i < length (consumers s) \<and> j < length (consumers s) \<and> i \<noteq> j
         \<and> cworker (consumers s ! i) = Some w \<longrightarrow> cworker (consumers s ! j) \<noteq> Some w)
    \<and> (i < length (consumers s) \<and> cworker (consumers s ! i) = Some w
         \<and> producer s = Some p \<longrightarrow> pworker p \<noteq> Some w)
    \<and> length (workers s) = holders (cws s) + holders (pws s)
    \<and> (i < length (consumers s) \<and> cworker (consumers s ! i) = Some w
         \<and> exec ls' s = Some s' \<longrightarrow>
         cworker (consumers s' ! i) = Some w \<and> workers s' ! w = workers s ! w)"
proof -
  from own_inv_exec[OF run own_inv_entered] have o: "own_inv s" and sp: "spawn_inv s" by simp_all
  have lvl: "conccurency_lvl s = n"
    using exec_lvl[OF run] by (simp add: entered_def aenter_def log_def JobIndexing_init_def)
  from sp spawned lvl have 1: "tasks s = Producer # map Consumer [0..<nat n]"
    and 3: "length (consumers s) = nat n" by (simp_all add: spawn_inv_def)
  from 1 have 2: "length (filter (\<lambda>t. t = Producer) (tasks s)) = 1" by simp
  from 3 have 4: "0 \<le> n \<longrightarrow> int (length (consumers s)) = n" by simp
  have 5: "i < length (consumers s) \<and> cpc (consumers s ! i) \<noteq> CNew
         \<and> \<not> consumer_done (consumers s ! i) \<longrightarrow>
         (\<exists>w. cworker (consumers s ! i) = Some w \<and> w < length (workers s)
              \<and> purpose (workers s ! w) = ''Job Details Scraping'')"
  proof
    assume a: "i < length (consumers s) \<and> cpc (consumers s ! i) \<noteq> CNew
         \<and> \<not> consumer_done (consumers s ! i)"
    then have wf: "wf_consumer (workers s) (consumers s ! i)" using own_inv_consumer[OF o] by simp
    from wf_consumer_active[OF wf] a obtain w where "cworker (consumers s ! i) = Some w" by auto
    with wf show "\<exists>w. cworker (consumers s ! i) = Some w \<and> w < length (workers s)
              \<and> purpose (workers s ! w) = ''Job Details Scraping''"
      by (simp add: wf_consumer_def)
  qed
  have 6: "i < length (consumers s) \<and> j < length (consumers s) \<and> i \<noteq> j
         \<and> cworker (consumers s ! i) = Some w \<longrightarrow> cworker (consumers s ! j) \<noteq> Some w"
  proof
    assume a: "i < length (consumers s) \<and> j < length (consumers s) \<and> i \<noteq> j
         \<and> cworker (consumers s ! i) = Some w"
    show "cworker (consumers s ! j) \<noteq> Some w"
    proof
      assume "cworker (consumers s ! j) = Some w"
      with a own_inv_distinct[OF o, of i j] show False by (simp add: cws_def)
    qed
  qed
  have 7: "i < length (consumers s) \<and> cworker (consumers s ! i) = Some w
         \<and> producer s = Some p \<longrightarrow> pworker p \<noteq> Some w"
  proof
    assume a: "i < length (consumers s) \<and> cworker (consumers s ! i) = Some w
         \<and> producer s = Some p"
    with own_inv_consumer[OF o, of i] have c: "purpose (workers s ! w) = ''Job Details Scraping''"
      by (simp add: wf_consumer_def)
    show "pworker p \<noteq> Some w"
    proof
      assume "pworker p = Some w"
      with a own_inv_producer[OF o, of p] have "purpose (workers s ! w) = ''Feed Scraping''"
        by (simp add: wf_producer_def)
      with c show False by simp
    qed
  qed
  have 8: "length (workers s) = holders (cws s) + holders (pws s)" by (rule own_inv_count[OF o])
  have 9: "i < length (consumers s) \<and> cworker (consumers s ! i) = Some w
         \<and> exec ls' s = Some s' \<longrightarrow>
         cworker (consumers s' ! i) = Some w \<and> workers s' ! w = workers s ! w"
    using exec_worker_stable[OF _ o sp, of ls' s' i w] by blast
  show ?thesis
    by (rule conjI[OF 1 conjI[OF 2 conjI[OF 3 conjI[OF 4 conjI[OF 5 conjI[OF 6 conjI[OF 7
          conjI[OF 8 9]]]]]]]])
qed

theorem C7_tasks_and_exclusive_workers_witness:
  "\<exists>s. exec [RunSpawn, ProducerStart (io_ok 0), ConsumerStart 0 (io_ok 1),
            ConsumerStart 1 (io_ok 2)] (entered None 2 False (- 1)) = Some s
     \<and> tasks s = [Producer, Consumer 0, Consumer 1]
     \<and> length (consumers s) = 2
     \<and> cworker (consumers s ! 0) = Some 1
     \<and> cworker (consumers s ! 1) \<noteq> Some 1
     \<and> length (workers s) = 3"
proof -
  let ?ls = "[RunSpawn, ProducerStart (io_ok 0), ConsumerStart 0 (io_ok 1),
            ConsumerStart 1 (io_ok 2)]"
  define s where "s = the (exec ?ls (entered None 2 False (- 1)))"
  have e: "exec ?ls (entered None 2 False (- 1)) = Some s" unfolding s_def by code_simp
  have r: "run_pc s \<noteq> RInit" and w0: "cworker (consumers s ! 0) = Some 1"
    and lw: "length (workers s) = 3" and lc: "length (consumers s) = 2"
    unfolding s_def by code_simp+
  have up: "[0..<nat 2] = [0, 1]" by (simp add: upt_rec)
  from C7_tasks_and_exclusive_workers[OF e r, where i = 0 and j = 1 and w = 1] w0 up lc
  have "tasks s = [Producer, Consumer 0, Consumer 1] \<and> length (consumers s) = 2
     \<and> cworker (consumers s ! 1) \<noteq> Some 1" by auto
  with e w0 lw show ?thesis by blast
qed

end
